theory Spec2Isabelle
  imports Complex_Main "HOL-Library.Multiset"
begin

text \<open>
  A discrete-event simulation of the dining philosophers: philosophers in a ring share
  one chopstick with each neighbour, a philosopher eats while it has both chopsticks and
  asks again after a random delay when it cannot get them. Pending events are kept in a
  binary heap ordered by time.

  Times are floating-point numbers in the program and reals here; rounding is not
  modelled.
\<close>

section \<open>Data model and operations\<close>

subsection \<open>Errors and event types\<close>

text \<open>The exceptions that the program can raise, as values.\<close>

datatype error = ZeroDivisionError | IndexError | AttributeError | ValueError string

datatype EventTypes = REQUEST | FINISH

subsection \<open>Chopstick\<close>

record Chopstick =
  is_free :: bool

definition Chopstick_init :: Chopstick where
  "Chopstick_init = \<lparr>is_free = True\<rparr>"

definition pick_up :: "Chopstick \<Rightarrow> Chopstick" where
  "pick_up self = self\<lparr>is_free := False\<rparr>"

definition put_down :: "Chopstick \<Rightarrow> Chopstick" where
  "put_down self = self\<lparr>is_free := True\<rparr>"

subsection \<open>Philosopher\<close>

text \<open>
  A philosopher refers to its two chopsticks; the chopstick objects are shared between
  neighbours, so they live in a store (a list of chopsticks in the simulation state) and
  a reference is an index into it. \<open>None\<close> is the value the constructor leaves there.
\<close>

record Philosopher =
  mi :: real
  lambda_i :: real
  left_chopstick :: "nat option"
  right_chopstick :: "nat option"
  failed_attempts :: int
  eating_time :: real
  started_at :: real
  requests :: "real list"

definition Philosopher_init :: "real \<Rightarrow> real \<Rightarrow> Philosopher" where
  "Philosopher_init mi' lambda_i' =
     \<lparr>mi = mi', lambda_i = lambda_i', left_chopstick = None, right_chopstick = None,
      failed_attempts = 0, eating_time = 0, started_at = 0, requests = []\<rparr>"

subsection \<open>Event\<close>

text \<open>An event refers to its philosopher by the philosopher's index in the simulation.
  Events are compared by time only.\<close>

record Event =
  philosopher :: nat
  time :: real
  type :: EventTypes

definition Event_lt :: "Event \<Rightarrow> Event \<Rightarrow> bool" where
  "Event_lt self other = (time self < time other)"

subsection \<open>The event queue\<close>

text \<open>
  The queue is a list kept as a binary heap by \<open>heapq.heappush\<close> and
  \<open>heapq.heappop\<close> of the Python library, which compare events with \<open><\<close>. They
  are modelled as the library implements them: \<open>siftdown\<close> moves a new item up towards
  the root, \<open>siftup\<close> moves the smaller child up until a leaf is reached and then sifts
  the displaced item down from there. \<open>siftdown_loop\<close> and \<open>siftup_loop\<close> are their
  while loops. Popping from an empty list raises IndexError.
\<close>

function siftdown_loop :: "Event list \<Rightarrow> nat \<Rightarrow> nat \<Rightarrow> Event \<Rightarrow> Event list" where
  "siftdown_loop heap startpos pos newitem =
     (if pos > startpos then
        (let parentpos = (pos - 1) div 2;
             parent = heap ! parentpos
         in if Event_lt newitem parent
            then siftdown_loop (heap[pos := parent]) startpos parentpos newitem
            else heap[pos := newitem])
      else heap[pos := newitem])"
  by pat_completeness auto
termination
  by (relation "measure (\<lambda>(heap, startpos, pos, newitem). pos)") auto

definition siftdown :: "Event list \<Rightarrow> nat \<Rightarrow> nat \<Rightarrow> Event list" where
  "siftdown heap startpos pos = siftdown_loop heap startpos pos (heap ! pos)"

function siftup_loop :: "Event list \<Rightarrow> nat \<Rightarrow> nat \<Rightarrow> Event list \<times> nat" where
  "siftup_loop heap endpos pos =
     (let childpos = 2 * pos + 1
      in if childpos < endpos then
           (let rightpos = childpos + 1;
                childpos = (if rightpos < endpos \<and> \<not> Event_lt (heap ! childpos) (heap ! rightpos)
                            then rightpos else childpos)
            in siftup_loop (heap[pos := heap ! childpos]) endpos childpos)
         else (heap, pos))"
  by pat_completeness auto
termination
  by (relation "measure (\<lambda>(heap, endpos, pos). endpos - pos)") (auto simp: Let_def)

definition siftup :: "Event list \<Rightarrow> nat \<Rightarrow> Event list" where
  "siftup heap pos =
     (let endpos = length heap;
          startpos = pos;
          newitem = heap ! pos;
          (heap, pos) = siftup_loop heap endpos pos
      in siftdown (heap[pos := newitem]) startpos pos)"

definition heappush :: "Event list \<Rightarrow> Event \<Rightarrow> Event list" where
  "heappush heap item = siftdown (heap @ [item]) 0 (length heap)"

definition heappop :: "Event list \<Rightarrow> error + (Event \<times> Event list)" where
  "heappop heap =
     (if heap = [] then Inl IndexError
      else (let lastelt = last heap;
                heap = butlast heap
            in if heap \<noteq> [] then
                 (let returnitem = heap ! 0;
                      heap = heap[0 := lastelt]
                  in Inr (returnitem, siftup heap 0))
               else Inr (lastelt, heap)))"

declare siftdown_loop.simps [simp del] siftup_loop.simps [simp del]

subsection \<open>Simulation state\<close>

text \<open>
  \<open>events\<close>, \<open>T\<close> and \<open>philosophers\<close> are the attributes of the Simulation object.
  \<open>chopsticks\<close> is the store of the chopstick objects created by the constructor, and
  \<open>draws\<close> counts the variates taken so far from the process-wide random generator.
\<close>

record Simulation =
  events :: "Event list"
  T :: real
  philosophers :: "Philosopher list"
  chopsticks :: "Chopstick list"
  draws :: nat

text \<open>
  The random source. \<open>random.expovariate(lambd)\<close> computes
  \<open>-log(1 - random()) / lambd\<close>, where \<open>random()\<close> lies in the half-open unit
  interval. The source is a parameter \<open>rnd\<close> of the model: \<open>rnd k\<close> is the value of
  \<open>-log(1 - random())\<close> at the \<open>k\<close>-th call, a real that is never negative. Division by
  a zero rate raises.
\<close>

definition expovariate :: "(nat \<Rightarrow> real) \<Rightarrow> nat \<Rightarrow> real \<Rightarrow> error + real" where
  "expovariate rnd k lambd =
     (if lambd = 0 then Inl ZeroDivisionError else Inr (rnd k / lambd))"

definition chopstick_is_free :: "Simulation \<Rightarrow> nat option \<Rightarrow> error + bool" where
  "chopstick_is_free s ref =
     (case ref of None \<Rightarrow> Inl AttributeError
      | Some c \<Rightarrow> Inr (is_free (chopsticks s ! c)))"

definition request :: "(nat \<Rightarrow> real) \<Rightarrow> Simulation \<Rightarrow> nat \<Rightarrow> real \<Rightarrow> error + Simulation \<times> Event" where
  "request rnd s self t =
     (let p = philosophers s ! self;
          p = p\<lparr>requests := requests p @ [t]\<rparr>
      in case chopstick_is_free s (left_chopstick p) of
           Inl e \<Rightarrow> Inl e
         | Inr left_free \<Rightarrow>
      (case (if left_free then chopstick_is_free s (right_chopstick p) else Inr False) of
           Inl e \<Rightarrow> Inl e
         | Inr both_free \<Rightarrow>
             if both_free then
               (let l = the (left_chopstick p);
                    r = the (right_chopstick p);
                    cs = (chopsticks s)[l := pick_up (chopsticks s ! l)];
                    cs = cs[r := pick_up (cs ! r)];
                    p = p\<lparr>started_at := t\<rparr>
                in case expovariate rnd (draws s) (mi p) of
                     Inl e \<Rightarrow> Inl e
                   | Inr d \<Rightarrow>
                       Inr (s\<lparr>philosophers := (philosophers s)[self := p],
                              chopsticks := cs, draws := Suc (draws s)\<rparr>,
                            \<lparr>philosopher = self, time = t + d, type = FINISH\<rparr>))
             else
               (let p = p\<lparr>failed_attempts := failed_attempts p + 1\<rparr>
                in case expovariate rnd (draws s) (lambda_i p) of
                     Inl e \<Rightarrow> Inl e
                   | Inr d \<Rightarrow>
                       Inr (s\<lparr>philosophers := (philosophers s)[self := p],
                              draws := Suc (draws s)\<rparr>,
                            \<lparr>philosopher = self, time = t + d, type = REQUEST\<rparr>))))"

definition finish :: "(nat \<Rightarrow> real) \<Rightarrow> Simulation \<Rightarrow> nat \<Rightarrow> real \<Rightarrow> error + Simulation \<times> Event" where
  "finish rnd s self t =
     (let p = philosophers s ! self
      in case left_chopstick p of
           None \<Rightarrow> Inl AttributeError
         | Some l \<Rightarrow>
      (let cs = (chopsticks s)[l := put_down (chopsticks s ! l)]
       in case right_chopstick p of
            None \<Rightarrow> Inl AttributeError
          | Some r \<Rightarrow>
       (let cs = cs[r := put_down (cs ! r)];
            p = p\<lparr>eating_time := eating_time p + (t - started_at p)\<rparr>
        in case expovariate rnd (draws s) (lambda_i p) of
             Inl e \<Rightarrow> Inl e
           | Inr d \<Rightarrow>
               Inr (s\<lparr>philosophers := (philosophers s)[self := p],
                      chopsticks := cs, draws := Suc (draws s)\<rparr>,
                    \<lparr>philosopher = self, time = t + d, type = REQUEST\<rparr>))))"

subsection \<open>Simulation\<close>

definition Simulation_init :: "real \<Rightarrow> real \<Rightarrow> real list \<Rightarrow> Simulation" where
  "Simulation_init mi' T' lambdas =
     (let ps = map (Philosopher_init mi') lambdas;
          cs = map (\<lambda>_. Chopstick_init) ps;
          ps = map (\<lambda>(index, p). p\<lparr>left_chopstick := Some index,
                                   right_chopstick := Some ((index + 1) mod length cs)\<rparr>)
                   (enumerate 0 ps)
      in \<lparr>events = [], T = T', philosophers = ps, chopsticks = cs, draws = 0\<rparr>)"

text \<open>The seeding loop of \<open>run\<close>: every philosopher requests at time 0.\<close>

fun seed :: "(nat \<Rightarrow> real) \<Rightarrow> nat list \<Rightarrow> Simulation \<Rightarrow> error + Simulation" where
  "seed rnd [] s = Inr s"
| "seed rnd (i # is) s =
     (case request rnd s i 0 of
        Inl e \<Rightarrow> Inl e
      | Inr (s', ev) \<Rightarrow> seed rnd is (s'\<lparr>events := heappush (events s') ev\<rparr>))"

text \<open>
  One iteration of the while loop. It returns the popped event, whose time is the new
  value of the local variable \<open>time\<close>, and the state after the follow-up event is pushed.
\<close>

definition loop_body :: "(nat \<Rightarrow> real) \<Rightarrow> Simulation \<Rightarrow> error + Event \<times> Simulation" where
  "loop_body rnd s =
     (case heappop (events s) of
        Inl e \<Rightarrow> Inl e
      | Inr (event, heap) \<Rightarrow>
          (let s = s\<lparr>events := heap\<rparr>;
               t = time event
           in case (case type event of
                      REQUEST \<Rightarrow> request rnd s (philosopher event) t
                    | FINISH \<Rightarrow> finish rnd s (philosopher event) t) of
                Inl e \<Rightarrow> Inl e
              | Inr (s, next_event) \<Rightarrow>
                  Inr (event, s\<lparr>events := heappush (events s) next_event\<rparr>)))"

text \<open>The while loop; \<open>None\<close> is a loop that never ends.\<close>

partial_function (option) run_loop ::
  "(nat \<Rightarrow> real) \<Rightarrow> real \<Rightarrow> Simulation \<Rightarrow> (error + Simulation) option" where
  "run_loop rnd t s =
     (if t < T s then
        (case loop_body rnd s of
           Inl e \<Rightarrow> Some (Inl e)
         | Inr (event, s') \<Rightarrow> run_loop rnd (time event) s')
      else Some (Inr s))"

declare run_loop.simps [code]

definition Simulation_run :: "(nat \<Rightarrow> real) \<Rightarrow> Simulation \<Rightarrow> (error + Simulation) option" where
  "Simulation_run rnd s =
     (case seed rnd [0..<length (philosophers s)] s of
        Inl e \<Rightarrow> Some (Inl e)
      | Inr s \<Rightarrow>
          (case run_loop rnd 0 s of
             None \<Rightarrow> None
           | Some (Inl e) \<Rightarrow> Some (Inl e)
           | Some (Inr s) \<Rightarrow> Some (Inr (s\<lparr>events := []\<rparr>))))"

subsection \<open>The module-level run and the argument checks of the script\<close>

text \<open>
  \<open>default_mi\<close> and \<open>default_lambda k\<close> stand for the values that \<open>run\<close> draws
  with \<open>round(random.uniform(0.01, 1), 2)\<close> when an argument is absent.
\<close>

definition run ::
  "(nat \<Rightarrow> real) \<Rightarrow> real \<Rightarrow> (nat \<Rightarrow> real) \<Rightarrow> int \<Rightarrow> real \<Rightarrow> real option \<Rightarrow> real list option
     \<Rightarrow> (error + Simulation) option" where
  "run rnd default_mi default_lambda n T' mi' lambdas =
     (let mi' = (case mi' of None \<Rightarrow> default_mi | Some m \<Rightarrow> m);
          lambdas = (case lambdas of
                       None \<Rightarrow> map default_lambda [0..<nat n]
                     | Some ls \<Rightarrow> ls)
      in Simulation_run rnd (Simulation_init mi' T' lambdas))"

record Args =
  args_n :: int
  args_T :: int
  args_mi :: "real option"
  args_lambdas :: "real list option"

text \<open>Truth values of Python: \<open>None\<close>, \<open>0.0\<close> and the empty list are false.\<close>

definition truthy_float :: "real option \<Rightarrow> bool" where
  "truthy_float x = (case x of None \<Rightarrow> False | Some v \<Rightarrow> v \<noteq> 0)"

definition truthy_list :: "real list option \<Rightarrow> bool" where
  "truthy_list x = (case x of None \<Rightarrow> False | Some xs \<Rightarrow> xs \<noteq> [])"

definition validate :: "Args \<Rightarrow> error + Args" where
  "validate args =
     (let args = (if truthy_list (args_lambdas args)
                  then args\<lparr>args_n := int (length (the (args_lambdas args)))\<rparr>
                  else args)
      in if args_n args < 2 \<or> args_n args mod 2 \<noteq> 1 then
           Inl (ValueError ''Number of philosophers must be odd and greater than 1'')
         else if args_T args < 1 then
           Inl (ValueError ''Time of simulation must be greater than 0'')
         else if truthy_float (args_mi args) \<and> the (args_mi args) \<le> 0 then
           Inl (ValueError ''Mi must be greater than 0'')
         else if truthy_list (args_lambdas args)
                 \<and> list_ex (\<lambda>lambda_i. lambda_i \<le> 0) (the (args_lambdas args)) then
           Inl (ValueError ''Lambdas must be greater than 0'')
         else Inr args)"

text \<open>The script up to its first simulation: the checks, then \<open>run\<close>.\<close>

definition main ::
  "(nat \<Rightarrow> real) \<Rightarrow> real \<Rightarrow> (nat \<Rightarrow> real) \<Rightarrow> Args \<Rightarrow> (error + Simulation) option" where
  "main rnd default_mi default_lambda args =
     (case validate args of
        Inl e \<Rightarrow> Some (Inl e)
      | Inr args \<Rightarrow>
          run rnd default_mi default_lambda (args_n args) (real_of_int (args_T args))
            (args_mi args) (args_lambdas args))"

subsection \<open>The heap property\<close>

text \<open>
  \<open>heap_inv\<close>: no event is earlier than its parent. \<open>up_ok\<close> and \<open>down_ok\<close> are the
  loop invariants of the two sifting loops: the heap property away from the position
  that is being filled. \<open>smaller_child\<close> is the child that \<open>siftup_loop\<close> moves up.
\<close>

definition heap_inv :: "Event list \<Rightarrow> bool" where
  "heap_inv h = (\<forall>i. 0 < i \<and> i < length h \<longrightarrow> time (h ! ((i - 1) div 2)) \<le> time (h ! i))"

definition up_ok :: "Event list \<Rightarrow> nat \<Rightarrow> Event \<Rightarrow> bool" where
  "up_ok h pos x =
     (pos < length h \<and>
      (\<forall>i. 0 < i \<and> i < length h \<and> i \<noteq> pos \<longrightarrow> time (h ! ((i - 1) div 2)) \<le> time (h ! i)) \<and>
      (\<forall>c. 0 < c \<and> c < length h \<and> (c - 1) div 2 = pos \<longrightarrow>
           time x \<le> time (h ! c) \<and> (0 < pos \<longrightarrow> time (h ! ((pos - 1) div 2)) \<le> time (h ! c))))"

definition down_ok :: "Event list \<Rightarrow> nat \<Rightarrow> bool" where
  "down_ok h pos =
     (pos < length h \<and>
      (\<forall>i. 0 < i \<and> i < length h \<and> (i - 1) div 2 \<noteq> pos \<longrightarrow> time (h ! ((i - 1) div 2)) \<le> time (h ! i)) \<and>
      (0 < pos \<longrightarrow> (\<forall>c. 0 < c \<and> c < length h \<and> (c - 1) div 2 = pos \<longrightarrow>
           time (h ! ((pos - 1) div 2)) \<le> time (h ! c))))"

definition smaller_child :: "Event list \<Rightarrow> nat \<Rightarrow> nat \<Rightarrow> nat" where
  "smaller_child h endpos pos =
     (if 2 * pos + 2 < endpos \<and> \<not> Event_lt (h ! (2 * pos + 1)) (h ! (2 * pos + 2))
      then 2 * pos + 2 else 2 * pos + 1)"

subsection \<open>Executions of the event loop\<close>

text \<open>
  \<open>exec rnd c tr c'\<close>: starting with the clock and state \<open>c\<close>, the while loop makes
  \<open>length tr\<close> iterations and reaches the clock and state \<open>c'\<close>. The trace \<open>tr\<close> lists,
  in order, each popped event with the state it was popped from.
\<close>

inductive exec ::
  "(nat \<Rightarrow> real) \<Rightarrow> real \<times> Simulation \<Rightarrow> (Event \<times> Simulation) list \<Rightarrow> real \<times> Simulation \<Rightarrow> bool"
  for rnd :: "nat \<Rightarrow> real" where
  exec_start: "exec rnd c [] c"
| exec_step: "exec rnd c tr (t, s) \<Longrightarrow> t < T s \<Longrightarrow> loop_body rnd s = Inr (event, s') \<Longrightarrow>
              exec rnd c (tr @ [(event, s)]) (time event, s')"

subsection \<open>Notions used in the properties\<close>

text \<open>
  The program stores no owner of a chopstick and no state of a philosopher. A philosopher
  is eating from the request that picked the chopsticks up until its finish, that is,
  exactly while its pending event in the queue is a FINISH event; it then holds the two
  chopsticks it refers to.
\<close>

definition uses :: "Simulation \<Rightarrow> nat \<Rightarrow> nat \<Rightarrow> bool" where
  "uses s i c = (left_chopstick (philosophers s ! i) = Some c \<or>
                 right_chopstick (philosophers s ! i) = Some c)"

definition eating :: "Simulation \<Rightarrow> nat \<Rightarrow> bool" where
  "eating s i = list_ex (\<lambda>e. philosopher e = i \<and> type e = FINISH) (events s)"

definition holds :: "Simulation \<Rightarrow> nat \<Rightarrow> nat \<Rightarrow> bool" where
  "holds s i c = (i < length (philosophers s) \<and> eating s i \<and> uses s i c)"

text \<open>
  Mutual exclusion in a state: no chopstick has two holders, a chopstick is taken
  exactly when some philosopher holds it, and every philosopher has two chopsticks that
  exist and holds both of them, which are then taken, or neither.
\<close>

definition exclusion :: "Simulation \<Rightarrow> bool" where
  "exclusion s =
     ((\<forall>c i j. holds s i c \<and> holds s j c \<longrightarrow> i = j) \<and>
      (\<forall>c < length (chopsticks s). is_free (chopsticks s ! c) \<longleftrightarrow> \<not> (\<exists>i. holds s i c)) \<and>
      (\<forall>i < length (philosophers s). \<exists>l r.
          left_chopstick (philosophers s ! i) = Some l \<and>
          right_chopstick (philosophers s ! i) = Some r \<and>
          l < length (chopsticks s) \<and> r < length (chopsticks s) \<and>
          (if eating s i
           then holds s i l \<and> holds s i r \<and>
                \<not> is_free (chopsticks s ! l) \<and> \<not> is_free (chopsticks s ! r)
           else \<not> holds s i l \<and> \<not> holds s i r)))"

text \<open>The invariants behind it: the ring wiring, the bookkeeping of taken chopsticks
  for a set \<open>E\<close> of eating philosophers, and one pending event at most for each
  philosopher.\<close>

definition wired :: "Simulation \<Rightarrow> bool" where
  "wired s =
     (length (chopsticks s) = length (philosophers s) \<and>
      (\<forall>i < length (philosophers s).
         left_chopstick (philosophers s ! i) = Some i \<and>
         right_chopstick (philosophers s ! i) = Some ((i + 1) mod length (philosophers s))))"

definition core :: "Simulation \<Rightarrow> (nat \<Rightarrow> bool) \<Rightarrow> bool" where
  "core s E =
     (wired s \<and>
      (\<forall>c < length (chopsticks s).
         is_free (chopsticks s ! c) \<longleftrightarrow> \<not> (\<exists>i < length (philosophers s). E i \<and> uses s i c)) \<and>
      (\<forall>i < length (philosophers s). \<forall>j < length (philosophers s). \<forall>c.
         E i \<and> E j \<and> uses s i c \<and> uses s j c \<longrightarrow> i = j))"

definition queue_ok :: "Simulation \<Rightarrow> bool" where
  "queue_ok s =
     (distinct (map philosopher (events s)) \<and>
      (\<forall>e \<in> set (events s). philosopher e < length (philosophers s)))"

definition inv :: "Simulation \<Rightarrow> bool" where
  "inv s = (core s (eating s) \<and> queue_ok s)"

definition untouched :: "Simulation \<Rightarrow> Simulation \<Rightarrow> nat \<Rightarrow> bool" where
  "untouched s s' i =
     (events s' = events s \<and> T s' = T s \<and> draws s' = Suc (draws s) \<and>
      length (philosophers s') = length (philosophers s) \<and>
      length (chopsticks s') = length (chopsticks s) \<and>
      (\<forall>j. j \<noteq> i \<longrightarrow> philosophers s' ! j = philosophers s ! j) \<and>
      mi (philosophers s' ! i) = mi (philosophers s ! i) \<and>
      lambda_i (philosophers s' ! i) = lambda_i (philosophers s ! i) \<and>
      left_chopstick (philosophers s' ! i) = left_chopstick (philosophers s ! i) \<and>
      right_chopstick (philosophers s' ! i) = right_chopstick (philosophers s ! i))"

text \<open>Timing: the queue holds no event earlier than the clock, and what the philosophers
  have recorded lies between 0 and the clock.\<close>

definition timedQ :: "real \<Rightarrow> Simulation \<Rightarrow> bool" where
  "timedQ t s = (heap_inv (events s) \<and> (\<forall>e \<in> set (events s). t \<le> time e))"

definition timedP :: "real \<Rightarrow> Simulation \<Rightarrow> bool" where
  "timedP t s =
     (0 \<le> t \<and>
      (\<forall>p \<in> set (philosophers s).
         0 < mi p \<and> 0 < lambda_i p \<and> sorted (requests p) \<and>
         (\<forall>x \<in> set (requests p). x \<le> t) \<and>
         0 \<le> started_at p \<and> started_at p \<le> t \<and> 0 \<le> eating_time p))"

text \<open>The sum of the eating times, the FINISH events of a trace, and the busy interval
  that a FINISH event closes: from \<open>started_at\<close> of its philosopher to its own time.\<close>

definition busy_total :: "Simulation \<Rightarrow> real" where
  "busy_total s = sum_list (map eating_time (philosophers s))"

definition finish_count :: "(Event \<times> Simulation) list \<Rightarrow> nat" where
  "finish_count tr = length (filter (\<lambda>x. type (fst x) = FINISH) tr)"

definition request_count :: "nat \<Rightarrow> (Event \<times> Simulation) list \<Rightarrow> nat" where
  "request_count i tr =
     length (filter (\<lambda>x. philosopher (fst x) = i \<and> type (fst x) = REQUEST) tr)"

definition busy_interval :: "Event \<times> Simulation \<Rightarrow> real \<times> real" where
  "busy_interval x =
     (started_at (philosophers (snd x) ! philosopher (fst x)), time (fst x))"

subsection \<open>A concrete run\<close>

text \<open>
  Three philosophers with all rates 1 and horizon 1, and a random source whose first
  values are 3, 0, 5, 4 and then 1.
\<close>

definition rnd_ex :: "nat \<Rightarrow> real" where
  "rnd_ex k = (if k = 0 then 3 else if k = 1 then 0 else if k = 2 then 5
               else if k = 3 then 4 else 1)"

definition sim_ex :: Simulation where
  "sim_ex = Simulation_init 1 1 [1, 1, 1]"

text \<open>The state after the seeding, the two popped events and the states after each.\<close>

definition seeded_ex :: Simulation where
  "seeded_ex =
     \<lparr>events = [\<lparr>philosopher = 1, time = 0, type = REQUEST\<rparr>,
                \<lparr>philosopher = 0, time = 3, type = FINISH\<rparr>,
                \<lparr>philosopher = 2, time = 5, type = REQUEST\<rparr>],
      T = 1,
      philosophers =
          [\<lparr>mi = 1, lambda_i = 1, left_chopstick = Some 0, right_chopstick = Some 1,
            failed_attempts = 0, eating_time = 0, started_at = 0, requests = [0]\<rparr>,
           \<lparr>mi = 1, lambda_i = 1, left_chopstick = Some 1, right_chopstick = Some 2,
            failed_attempts = 1, eating_time = 0, started_at = 0, requests = [0]\<rparr>,
           \<lparr>mi = 1, lambda_i = 1, left_chopstick = Some 2, right_chopstick = Some 0,
            failed_attempts = 1, eating_time = 0, started_at = 0, requests = [0]\<rparr>],
      chopsticks = [\<lparr>is_free = False\<rparr>, \<lparr>is_free = False\<rparr>, \<lparr>is_free = True\<rparr>],
      draws = 3\<rparr>"

definition e1_ex :: Event where
  "e1_ex = \<lparr>philosopher = 1, time = 0, type = REQUEST\<rparr>"

definition s1_ex :: Simulation where
  "s1_ex =
     \<lparr>events = [\<lparr>philosopher = 0, time = 3, type = FINISH\<rparr>,
                \<lparr>philosopher = 2, time = 5, type = REQUEST\<rparr>,
                \<lparr>philosopher = 1, time = 4, type = REQUEST\<rparr>],
      T = 1,
      philosophers =
          [\<lparr>mi = 1, lambda_i = 1, left_chopstick = Some 0, right_chopstick = Some 1,
            failed_attempts = 0, eating_time = 0, started_at = 0, requests = [0]\<rparr>,
           \<lparr>mi = 1, lambda_i = 1, left_chopstick = Some 1, right_chopstick = Some 2,
            failed_attempts = 2, eating_time = 0, started_at = 0, requests = [0, 0]\<rparr>,
           \<lparr>mi = 1, lambda_i = 1, left_chopstick = Some 2, right_chopstick = Some 0,
            failed_attempts = 1, eating_time = 0, started_at = 0, requests = [0]\<rparr>],
      chopsticks = [\<lparr>is_free = False\<rparr>, \<lparr>is_free = False\<rparr>, \<lparr>is_free = True\<rparr>],
      draws = 4\<rparr>"

definition e2_ex :: Event where
  "e2_ex = \<lparr>philosopher = 0, time = 3, type = FINISH\<rparr>"

definition s2_ex :: Simulation where
  "s2_ex =
     \<lparr>events = [\<lparr>philosopher = 1, time = 4, type = REQUEST\<rparr>,
                \<lparr>philosopher = 2, time = 5, type = REQUEST\<rparr>,
                \<lparr>philosopher = 0, time = 4, type = REQUEST\<rparr>],
      T = 1,
      philosophers =
          [\<lparr>mi = 1, lambda_i = 1, left_chopstick = Some 0, right_chopstick = Some 1,
            failed_attempts = 0, eating_time = 3, started_at = 0, requests = [0]\<rparr>,
           \<lparr>mi = 1, lambda_i = 1, left_chopstick = Some 1, right_chopstick = Some 2,
            failed_attempts = 2, eating_time = 0, started_at = 0, requests = [0, 0]\<rparr>,
           \<lparr>mi = 1, lambda_i = 1, left_chopstick = Some 2, right_chopstick = Some 0,
            failed_attempts = 1, eating_time = 0, started_at = 0, requests = [0]\<rparr>],
      chopsticks = [\<lparr>is_free = True\<rparr>, \<lparr>is_free = True\<rparr>, \<lparr>is_free = True\<rparr>],
      draws = 5\<rparr>"

definition trace_ex :: "(Event \<times> Simulation) list" where
  "trace_ex = [(e1_ex, seeded_ex), (e2_ex, s1_ex)]"

definition final_ex :: Simulation where
  "final_ex = s2_ex\<lparr>events := []\<rparr>"

subsection \<open>A second concrete run\<close>

text \<open>
  The same three philosophers with horizon 3 and a random source whose values are
  1, 10, 11 and then 1: philosopher 0 eats twice.
\<close>

definition rnd_ex2 :: "nat \<Rightarrow> real" where
  "rnd_ex2 k = (if k = 1 then 10 else if k = 2 then 11 else 1)"

definition seeded_ex2 :: Simulation where
  "seeded_ex2 =
     \<lparr>events = [\<lparr>philosopher = 0, time = 1, type = FINISH\<rparr>,
                \<lparr>philosopher = 1, time = 10, type = REQUEST\<rparr>,
                \<lparr>philosopher = 2, time = 11, type = REQUEST\<rparr>],
      T = 3,
      philosophers =
          [\<lparr>mi = 1, lambda_i = 1, left_chopstick = Some 0, right_chopstick = Some 1,
            failed_attempts = 0, eating_time = 0, started_at = 0, requests = [0]\<rparr>,
           \<lparr>mi = 1, lambda_i = 1, left_chopstick = Some 1, right_chopstick = Some 2,
            failed_attempts = 1, eating_time = 0, started_at = 0, requests = [0]\<rparr>,
           \<lparr>mi = 1, lambda_i = 1, left_chopstick = Some 2, right_chopstick = Some 0,
            failed_attempts = 1, eating_time = 0, started_at = 0, requests = [0]\<rparr>],
      chopsticks = [\<lparr>is_free = False\<rparr>, \<lparr>is_free = False\<rparr>, \<lparr>is_free = True\<rparr>],
      draws = 3\<rparr>"

definition e1_ex2 :: Event where
  "e1_ex2 = \<lparr>philosopher = 0, time = 1, type = FINISH\<rparr>"

definition s1_ex2 :: Simulation where
  "s1_ex2 =
     \<lparr>events = [\<lparr>philosopher = 0, time = 2, type = REQUEST\<rparr>,
                \<lparr>philosopher = 2, time = 11, type = REQUEST\<rparr>,
                \<lparr>philosopher = 1, time = 10, type = REQUEST\<rparr>],
      T = 3,
      philosophers =
          [\<lparr>mi = 1, lambda_i = 1, left_chopstick = Some 0, right_chopstick = Some 1,
            failed_attempts = 0, eating_time = 1, started_at = 0, requests = [0]\<rparr>,
           \<lparr>mi = 1, lambda_i = 1, left_chopstick = Some 1, right_chopstick = Some 2,
            failed_attempts = 1, eating_time = 0, started_at = 0, requests = [0]\<rparr>,
           \<lparr>mi = 1, lambda_i = 1, left_chopstick = Some 2, right_chopstick = Some 0,
            failed_attempts = 1, eating_time = 0, started_at = 0, requests = [0]\<rparr>],
      chopsticks = [\<lparr>is_free = True\<rparr>, \<lparr>is_free = True\<rparr>, \<lparr>is_free = True\<rparr>],
      draws = 4\<rparr>"

definition e2_ex2 :: Event where
  "e2_ex2 = \<lparr>philosopher = 0, time = 2, type = REQUEST\<rparr>"

definition s2_ex2 :: Simulation where
  "s2_ex2 =
     \<lparr>events = [\<lparr>philosopher = 0, time = 3, type = FINISH\<rparr>,
                \<lparr>philosopher = 2, time = 11, type = REQUEST\<rparr>,
                \<lparr>philosopher = 1, time = 10, type = REQUEST\<rparr>],
      T = 3,
      philosophers =
          [\<lparr>mi = 1, lambda_i = 1, left_chopstick = Some 0, right_chopstick = Some 1,
            failed_attempts = 0, eating_time = 1, started_at = 2, requests = [0, 2]\<rparr>,
           \<lparr>mi = 1, lambda_i = 1, left_chopstick = Some 1, right_chopstick = Some 2,
            failed_attempts = 1, eating_time = 0, started_at = 0, requests = [0]\<rparr>,
           \<lparr>mi = 1, lambda_i = 1, left_chopstick = Some 2, right_chopstick = Some 0,
            failed_attempts = 1, eating_time = 0, started_at = 0, requests = [0]\<rparr>],
      chopsticks = [\<lparr>is_free = False\<rparr>, \<lparr>is_free = False\<rparr>, \<lparr>is_free = True\<rparr>],
      draws = 5\<rparr>"

definition e3_ex2 :: Event where
  "e3_ex2 = \<lparr>philosopher = 0, time = 3, type = FINISH\<rparr>"

definition s3_ex2 :: Simulation where
  "s3_ex2 =
     \<lparr>events = [\<lparr>philosopher = 0, time = 4, type = REQUEST\<rparr>,
                \<lparr>philosopher = 2, time = 11, type = REQUEST\<rparr>,
                \<lparr>philosopher = 1, time = 10, type = REQUEST\<rparr>],
      T = 3,
      philosophers =
          [\<lparr>mi = 1, lambda_i = 1, left_chopstick = Some 0, right_chopstick = Some 1,
            failed_attempts = 0, eating_time = 2, started_at = 2, requests = [0, 2]\<rparr>,
           \<lparr>mi = 1, lambda_i = 1, left_chopstick = Some 1, right_chopstick = Some 2,
            failed_attempts = 1, eating_time = 0, started_at = 0, requests = [0]\<rparr>,
           \<lparr>mi = 1, lambda_i = 1, left_chopstick = Some 2, right_chopstick = Some 0,
            failed_attempts = 1, eating_time = 0, started_at = 0, requests = [0]\<rparr>],
      chopsticks = [\<lparr>is_free = True\<rparr>, \<lparr>is_free = True\<rparr>, \<lparr>is_free = True\<rparr>],
      draws = 6\<rparr>"

definition trace_ex2 :: "(Event \<times> Simulation) list" where
  "trace_ex2 = [(e1_ex2, seeded_ex2), (e2_ex2, s1_ex2), (e3_ex2, s2_ex2)]"

section \<open>The binary heap\<close>

lemma length_siftdown_loop [simp]: "length (siftdown_loop h sp pos x) = length h"
  by (induction h sp pos x rule: siftdown_loop.induct)
     (subst siftdown_loop.simps, simp add: Let_def)

lemma hole_move:
  assumes "i < length h" "j < length h" "i \<noteq> j"
  shows "mset (h[i := h ! j, j := x]) = mset (h[i := x])"
proof -
  let ?g = "h[i := x]"
  have "mset (?g[i := ?g ! j, j := ?g ! i]) = mset ?g"
    using assms by (intro mset_swap) simp_all
  moreover have "?g[i := ?g ! j, j := ?g ! i] = h[i := h ! j, j := x]"
    using assms by simp
  ultimately show ?thesis by simp
qed

lemma mset_siftdown_loop:
  "pos < length h \<Longrightarrow> mset (siftdown_loop h sp pos x) = mset (h[pos := x])"
proof (induction h sp pos x rule: siftdown_loop.induct)
  case (1 heap startpos pos newitem)
  show ?case
  proof (cases "pos > startpos \<and> Event_lt newitem (heap ! ((pos - 1) div 2))")
    case True
    then have lt: "(pos - 1) div 2 < pos" by auto
    have "mset (siftdown_loop (heap[pos := heap ! ((pos - 1) div 2)]) startpos ((pos - 1) div 2) newitem)
          = mset (heap[pos := heap ! ((pos - 1) div 2), (pos - 1) div 2 := newitem])"
      using "1.IH"[OF _ refl refl] True lt "1.prems" by simp
    also have "\<dots> = mset (heap[pos := newitem])"
      using lt "1.prems" by (intro hole_move) auto
    finally show ?thesis
      using True by (subst siftdown_loop.simps) (simp add: Let_def)
  next
    case False
    then show ?thesis
      by (subst siftdown_loop.simps) (auto simp add: Let_def)
  qed
qed


lemma up_ok_step:
  assumes ok: "up_ok h pos x" and pos: "0 < pos"
    and lt: "time x < time (h ! ((pos - 1) div 2))"
  shows "up_ok (h[pos := h ! ((pos - 1) div 2)]) ((pos - 1) div 2) x"
proof -
  define pp where "pp = (pos - 1) div 2"
  define h' where "h' = h[pos := h ! pp]"
  have len: "pos < length h" and pp_lt: "pp < pos"
    using ok pos by (auto simp: up_ok_def pp_def)
  have edges: "\<And>i. 0 < i \<Longrightarrow> i < length h \<Longrightarrow> i \<noteq> pos \<Longrightarrow> time (h ! ((i - 1) div 2)) \<le> time (h ! i)"
    using ok by (simp add: up_ok_def)
  have grand: "\<And>c. 0 < c \<Longrightarrow> c < length h \<Longrightarrow> (c - 1) div 2 = pos \<Longrightarrow> time (h ! pp) \<le> time (h ! c)"
    using ok pos by (simp add: up_ok_def pp_def)
  have at_pos: "h' ! pos = h ! pp" and other: "\<And>i. i \<noteq> pos \<Longrightarrow> h' ! i = h ! i"
    using len by (simp_all add: h'_def)
  have 1: "time (h' ! ((i - 1) div 2)) \<le> time (h' ! i)"
    if "0 < i" "i < length h" "i \<noteq> pp" for i
  proof (cases "i = pos")
    case True
    then show ?thesis using at_pos other[of pp] pp_lt by (simp add: pp_def)
  next
    case False
    show ?thesis
    proof (cases "(i - 1) div 2 = pos")
      case True
      then show ?thesis using grand[OF that(1,2)] at_pos other[OF False] by simp
    next
      case par: False
      then show ?thesis using edges[OF that(1,2) False] other[OF False] other[OF par] by simp
    qed
  qed
  have 2: "time x \<le> time (h' ! c) \<and> (0 < pp \<longrightarrow> time (h' ! ((pp - 1) div 2)) \<le> time (h' ! c))"
    if "0 < c" "c < length h" "(c - 1) div 2 = pp" for c
  proof -
    have up: "0 < pp \<Longrightarrow> time (h ! ((pp - 1) div 2)) \<le> time (h ! pp)"
      using edges[of pp] pp_lt len by simp
    have ne: "(pp - 1) div 2 \<noteq> pos" using pp_lt by auto
    have c_ge: "time (h ! pp) \<le> time (h' ! c)"
    proof (cases "c = pos")
      case True
      then show ?thesis using at_pos by simp
    next
      case False
      then show ?thesis using edges[OF that(1,2) False] that(3) other[OF False] by simp
    qed
    show ?thesis using c_ge lt up other[OF ne] by (auto simp: pp_def)
  qed
  show ?thesis
    unfolding up_ok_def pp_def[symmetric] h'_def[symmetric]
    using 1 2 pp_lt len by (simp add: h'_def)
qed

lemma up_ok_done:
  assumes ok: "up_ok h pos x"
    and stop: "pos = 0 \<or> \<not> time x < time (h ! ((pos - 1) div 2))"
  shows "heap_inv (h[pos := x])"
  unfolding heap_inv_def
proof (intro allI impI)
  fix i assume i: "0 < i \<and> i < length (h[pos := x])"
  have len: "pos < length h" using ok by (simp add: up_ok_def)
  show "time (h[pos := x] ! ((i - 1) div 2)) \<le> time (h[pos := x] ! i)"
  proof (cases "i = pos")
    case True
    then have "(i - 1) div 2 \<noteq> pos" using i by auto
    then show ?thesis using True stop i len by auto
  next
    case False
    show ?thesis
    proof (cases "(i - 1) div 2 = pos")
      case True
      then show ?thesis using ok i False len by (auto simp: up_ok_def)
    next
      case par: False
      then show ?thesis using ok i False by (auto simp: up_ok_def)
    qed
  qed
qed

lemma heap_inv_siftdown_loop:
  "up_ok h pos x \<Longrightarrow> heap_inv (siftdown_loop h 0 pos x)"
proof (induction h "0::nat" pos x rule: siftdown_loop.induct)
  case (1 heap pos newitem)
  show ?case
  proof (cases "0 < pos \<and> Event_lt newitem (heap ! ((pos - 1) div 2))")
    case True
    then have "up_ok (heap[pos := heap ! ((pos - 1) div 2)]) ((pos - 1) div 2) newitem"
      using up_ok_step[OF "1.prems"] by (simp add: Event_lt_def)
    then have "heap_inv (siftdown_loop (heap[pos := heap ! ((pos - 1) div 2)]) 0 ((pos - 1) div 2) newitem)"
      using "1.hyps"[OF _ refl refl] True by simp
    then show ?thesis
      using True by (subst siftdown_loop.simps) (simp add: Let_def)
  next
    case False
    then have "heap_inv (heap[pos := newitem])"
      using up_ok_done[OF "1.prems"] by (auto simp: Event_lt_def)
    then show ?thesis
      using False by (subst siftdown_loop.simps) (auto simp add: Let_def)
  qed
qed


lemma siftup_loop_step:
  "2 * pos + 1 < endpos \<Longrightarrow>
   siftup_loop h endpos pos =
   siftup_loop (h[pos := h ! smaller_child h endpos pos]) endpos (smaller_child h endpos pos)"
  by (subst siftup_loop.simps) (simp add: Let_def smaller_child_def)

lemma siftup_loop_stop:
  "\<not> 2 * pos + 1 < endpos \<Longrightarrow> siftup_loop h endpos pos = (h, pos)"
  by (subst siftup_loop.simps) (simp add: Let_def)

lemma smaller_child_bounds:
  "2 * pos + 1 < endpos \<Longrightarrow>
   pos < smaller_child h endpos pos \<and> smaller_child h endpos pos < endpos \<and>
   (smaller_child h endpos pos - 1) div 2 = pos"
  by (auto simp: smaller_child_def)

lemma smaller_child_le:
  assumes "2 * pos + 1 < endpos" "0 < c" "c < endpos" "(c - 1) div 2 = pos"
  shows "time (h ! smaller_child h endpos pos) \<le> time (h ! c)"
proof -
  have "c = 2 * pos + 1 \<or> c = 2 * pos + 2" using assms by auto
  then show ?thesis using assms by (auto simp: smaller_child_def Event_lt_def)
qed

lemma siftup_loop_induct [consumes 0, case_names step]:
  assumes "\<And>h pos. (2 * pos + 1 < endpos \<Longrightarrow>
             P (h[pos := h ! smaller_child h endpos pos]) (smaller_child h endpos pos)) \<Longrightarrow> P h pos"
  shows "P h pos"
proof (induction "endpos - pos" arbitrary: h pos rule: less_induct)
  case less
  show ?case
  proof (rule assms)
    assume c: "2 * pos + 1 < endpos"
    then have "endpos - smaller_child h endpos pos < endpos - pos"
      using smaller_child_bounds[OF c, of h] by auto
    then show "P (h[pos := h ! smaller_child h endpos pos]) (smaller_child h endpos pos)"
      by (rule less)
  qed
qed


lemma length_siftup_loop:
  "siftup_loop h endpos pos = (h', pos') \<Longrightarrow> length h' = length h"
proof (induction h pos rule: siftup_loop_induct[where endpos = endpos])
  case (step h pos)
  show ?case
  proof (cases "2 * pos + 1 < endpos")
    case True
    then show ?thesis using step by (simp add: siftup_loop_step)
  next
    case False
    then show ?thesis using step by (simp add: siftup_loop_stop)
  qed
qed

lemma mset_siftup_loop:
  "siftup_loop h endpos pos = (h', pos') \<Longrightarrow> endpos = length h \<Longrightarrow> pos < length h \<Longrightarrow>
   pos' < length h \<and> mset (h'[pos' := x]) = mset (h[pos := x])"
proof (induction h pos rule: siftup_loop_induct[where endpos = endpos])
  case (step h pos)
  show ?case
  proof (cases "2 * pos + 1 < endpos")
    case True
    define c where "c = smaller_child h endpos pos"
    have c: "pos < c" "c < length h"
      using smaller_child_bounds[OF True, of h] step.prems(2) by (auto simp: c_def)
    have "siftup_loop (h[pos := h ! c]) endpos c = (h', pos')"
      using step.prems(1) True by (simp add: siftup_loop_step c_def)
    then have "pos' < length (h[pos := h ! c]) \<and>
               mset (h'[pos' := x]) = mset (h[pos := h ! c, c := x])"
      using step.IH[OF True] c step.prems(2) unfolding c_def[symmetric] by simp
    moreover have "mset (h[pos := h ! c, c := x]) = mset (h[pos := x])"
      using c step.prems(3) by (intro hole_move) auto
    ultimately show ?thesis by simp
  next
    case False
    then show ?thesis using step.prems by (simp add: siftup_loop_stop)
  qed
qed

lemma down_ok_step:
  assumes ok: "down_ok h pos" and more: "2 * pos + 1 < length h"
  shows "down_ok (h[pos := h ! smaller_child h (length h) pos]) (smaller_child h (length h) pos)"
proof -
  define c where "c = smaller_child h (length h) pos"
  define h' where "h' = h[pos := h ! c]"
  have c: "pos < c" "c < length h" "(c - 1) div 2 = pos"
    using smaller_child_bounds[OF more, of h] by (auto simp: c_def)
  have len: "pos < length h" using c by simp
  have edges: "\<And>i. 0 < i \<Longrightarrow> i < length h \<Longrightarrow> (i - 1) div 2 \<noteq> pos \<Longrightarrow>
                 time (h ! ((i - 1) div 2)) \<le> time (h ! i)"
    using ok by (simp add: down_ok_def)
  have grand: "\<And>d. 0 < pos \<Longrightarrow> 0 < d \<Longrightarrow> d < length h \<Longrightarrow> (d - 1) div 2 = pos \<Longrightarrow>
                 time (h ! ((pos - 1) div 2)) \<le> time (h ! d)"
    using ok by (simp add: down_ok_def)
  have at_pos: "h' ! pos = h ! c" and other: "\<And>i. i \<noteq> pos \<Longrightarrow> h' ! i = h ! i"
    using len by (simp_all add: h'_def)
  have 1: "time (h' ! ((i - 1) div 2)) \<le> time (h' ! i)"
    if "0 < i" "i < length h" "(i - 1) div 2 \<noteq> c" for i
  proof (cases "i = pos")
    case True
    then have "(i - 1) div 2 \<noteq> pos" using that(1) by auto
    then show ?thesis
      using True at_pos other[of "(pos - 1) div 2"] grand[of c] c that(1) by simp
  next
    case False
    show ?thesis
    proof (cases "(i - 1) div 2 = pos")
      case True
      then show ?thesis
        using smaller_child_le[OF more that(1,2) True, of h] at_pos other[OF False]
        by (simp add: c_def)
    next
      case par: False
      then show ?thesis using edges[OF that(1,2) par] other[OF False] other[OF par] by simp
    qed
  qed
  have 2: "time (h' ! ((c - 1) div 2)) \<le> time (h' ! d)"
    if "0 < d" "d < length h" "(d - 1) div 2 = c" for d
  proof -
    have "d \<noteq> pos" "(d - 1) div 2 \<noteq> pos" using that c by auto
    then show ?thesis using edges[OF that(1,2)] that(3) c at_pos other[of d] by simp
  qed
  have "down_ok h' c"
    unfolding down_ok_def
  proof (intro conjI allI impI)
    show "c < length h'" using c by (simp add: h'_def)
  next
    fix i assume "0 < i \<and> i < length h' \<and> (i - 1) div 2 \<noteq> c"
    then show "time (h' ! ((i - 1) div 2)) \<le> time (h' ! i)"
      using 1[of i] by (simp add: h'_def)
  next
    fix d assume "0 < c" "0 < d \<and> d < length h' \<and> (d - 1) div 2 = c"
    then show "time (h' ! ((c - 1) div 2)) \<le> time (h' ! d)"
      using 2[of d] by (simp add: h'_def)
  qed
  then show ?thesis by (simp add: h'_def c_def)
qed

lemma down_ok_done:
  assumes ok: "down_ok h pos" and leaf: "\<not> 2 * pos + 1 < length h"
  shows "heap_inv h"
  unfolding heap_inv_def
proof (intro allI impI)
  fix i assume i: "0 < i \<and> i < length h"
  then have "(i - 1) div 2 \<noteq> pos" using leaf by auto
  then show "time (h ! ((i - 1) div 2)) \<le> time (h ! i)"
    using ok i by (simp add: down_ok_def)
qed

lemma heap_inv_siftup_loop:
  "siftup_loop h endpos pos = (h', pos') \<Longrightarrow> endpos = length h \<Longrightarrow> down_ok h pos \<Longrightarrow>
   heap_inv h' \<and> \<not> 2 * pos' + 1 < length h"
proof (induction h pos rule: siftup_loop_induct[where endpos = endpos])
  case (step h pos)
  show ?case
  proof (cases "2 * pos + 1 < endpos")
    case True
    have "siftup_loop (h[pos := h ! smaller_child h endpos pos]) endpos (smaller_child h endpos pos) = (h', pos')"
      using step.prems(1) True by (simp add: siftup_loop_step)
    moreover have "down_ok (h[pos := h ! smaller_child h endpos pos]) (smaller_child h endpos pos)"
      using down_ok_step[OF step.prems(3)] True step.prems(2) by simp
    ultimately show ?thesis
      using step.IH[OF True] step.prems(2) by simp
  next
    case False
    then show ?thesis
      using step.prems down_ok_done[of h pos] by (simp add: siftup_loop_stop)
  qed
qed

lemma heap_inv_root_min:
  "heap_inv h \<Longrightarrow> i < length h \<Longrightarrow> time (h ! 0) \<le> time (h ! i)"
proof (induction i rule: less_induct)
  case (less i)
  show ?case
  proof (cases "i = 0")
    case True
    then show ?thesis by simp
  next
    case False
    then have "(i - 1) div 2 < i" by auto
    moreover have "time (h ! ((i - 1) div 2)) \<le> time (h ! i)"
      using less.prems False by (simp add: heap_inv_def)
    ultimately show ?thesis
      using less.IH[of "(i - 1) div 2"] less.prems by simp
  qed
qed

lemma heap_inv_butlast: "heap_inv h \<Longrightarrow> heap_inv (butlast h)"
  by (auto simp: heap_inv_def nth_butlast)

subsection \<open>heappush\<close>

lemma length_heappush [simp]: "length (heappush h e) = Suc (length h)"
  by (simp add: heappush_def siftdown_def)

lemma mset_heappush [simp]: "mset (heappush h e) = add_mset e (mset h)"
  by (simp add: heappush_def siftdown_def mset_siftdown_loop)

lemma heap_inv_heappush: "heap_inv h \<Longrightarrow> heap_inv (heappush h e)"
proof -
  assume h: "heap_inv h"
  have "up_ok (h @ [e]) (length h) e"
    unfolding up_ok_def
  proof (intro conjI allI impI)
    fix i assume "0 < i \<and> i < length (h @ [e]) \<and> i \<noteq> length h"
    then have i: "0 < i" "i < length h" by auto
    then have "(i - 1) div 2 < length h" by auto
    then show "time ((h @ [e]) ! ((i - 1) div 2)) \<le> time ((h @ [e]) ! i)"
      using h i by (simp add: heap_inv_def nth_append)
  qed auto
  then show ?thesis
    by (simp add: heappush_def siftdown_def heap_inv_siftdown_loop)
qed

subsection \<open>heappop\<close>

lemma heappop_empty [simp]: "heappop [] = Inl IndexError"
  by (simp add: heappop_def)

lemma mset_siftup:
  assumes "pos < length h"
  shows "mset (siftup h pos) = mset h"
proof -
  obtain h' pos' where loop: "siftup_loop h (length h) pos = (h', pos')"
    by (cases "siftup_loop h (length h) pos")
  have p: "pos' < length h" "mset (h'[pos' := h ! pos]) = mset (h[pos := h ! pos])"
    using mset_siftup_loop[OF loop refl assms, of "h ! pos"] by simp_all
  have len: "length h' = length h" using length_siftup_loop[OF loop] .
  show ?thesis
    using p len by (simp add: siftup_def loop siftdown_def mset_siftdown_loop Let_def)
qed

lemma length_siftup [simp]: "length (siftup h pos) = length h"
proof -
  obtain h' pos' where loop: "siftup_loop h (length h) pos = (h', pos')"
    by (cases "siftup_loop h (length h) pos")
  show ?thesis
    using length_siftup_loop[OF loop] by (simp add: siftup_def loop siftdown_def Let_def)
qed

lemma heap_inv_siftup_root:
  assumes "down_ok h 0"
  shows "heap_inv (siftup h 0)"
proof -
  obtain h' pos' where loop: "siftup_loop h (length h) 0 = (h', pos')"
    by (cases "siftup_loop h (length h) 0")
  have len: "length h' = length h" using length_siftup_loop[OF loop] .
  have pos': "pos' < length h"
    using mset_siftup_loop[OF loop refl, of undefined] assms by (simp add: down_ok_def)
  have hi: "heap_inv h'" and leaf: "\<not> 2 * pos' + 1 < length h"
    using heap_inv_siftup_loop[OF loop refl assms] by simp_all
  have "up_ok (h'[pos' := h ! 0]) pos' (h ! 0)"
    unfolding up_ok_def
  proof (intro conjI allI impI)
    show "pos' < length (h'[pos' := h ! 0])" using pos' len by simp
  next
    fix i assume i: "0 < i \<and> i < length (h'[pos' := h ! 0]) \<and> i \<noteq> pos'"
    then have "(i - 1) div 2 \<noteq> pos'" using leaf len by auto
    then show "time (h'[pos' := h ! 0] ! ((i - 1) div 2)) \<le> time (h'[pos' := h ! 0] ! i)"
      using hi i by (simp add: heap_inv_def)
  next
    fix c assume c: "0 < c \<and> c < length (h'[pos' := h ! 0]) \<and> (c - 1) div 2 = pos'"
    then have False using leaf len by auto
    then show "time (h ! 0) \<le> time (h'[pos' := h ! 0] ! c)" ..
  next
    fix c assume c: "0 < c \<and> c < length (h'[pos' := h ! 0]) \<and> (c - 1) div 2 = pos'"
    then have False using leaf len by auto
    then show "time (h'[pos' := h ! 0] ! ((pos' - 1) div 2)) \<le> time (h'[pos' := h ! 0] ! c)" ..
  qed
  then show ?thesis
    using pos' len by (simp add: siftup_def loop siftdown_def heap_inv_siftdown_loop Let_def)
qed

lemma heappop_nonempty:
  assumes "h \<noteq> []"
  shows "\<exists>e h'. heappop h = Inr (e, h') \<and> mset h = add_mset e (mset h') \<and>
           (heap_inv h \<longrightarrow> heap_inv h' \<and> (\<forall>x \<in> set h. time e \<le> time x))"
proof (cases "butlast h = []")
  case True
  then have h: "h = [last h]" using assms by (metis append_butlast_last_id append_Nil)
  have "heappop h = Inr (last h, [])"
    using assms True by (simp add: heappop_def Let_def)
  moreover have "mset h = add_mset (last h) (mset [])" by (subst h) simp
  moreover have "heap_inv []" by (simp add: heap_inv_def)
  moreover have "\<forall>x \<in> set h. time (last h) \<le> time x"
  proof
    fix x assume "x \<in> set h"
    then have "x \<in> set [last h]" using h by simp
    then show "time (last h) \<le> time x" by simp
  qed
  ultimately show ?thesis by blast
next
  case False
  define b where "b = butlast h"
  define l where "l = last h"
  have h: "h = b @ [l]" using assms by (simp add: b_def l_def)
  have "b \<noteq> []" using False by (simp add: b_def)
  then have b: "b \<noteq> []" "0 < length b" by simp_all
  have pop: "heappop h = Inr (b ! 0, siftup (b[0 := l]) 0)"
    using assms False by (simp add: heappop_def Let_def b_def l_def)
  have "mset (siftup (b[0 := l]) 0) = mset (b[0 := l])"
    using b by (intro mset_siftup) simp
  also have "\<dots> = add_mset l (mset b - {#b ! 0#})"
    using b by (simp add: mset_update)
  finally have "add_mset (b ! 0) (mset (siftup (b[0 := l]) 0)) = add_mset l (mset b)"
    using b by simp
  then have ms: "mset h = add_mset (b ! 0) (mset (siftup (b[0 := l]) 0))"
    by (simp add: h)
  have inv: "heap_inv (siftup (b[0 := l]) 0) \<and> (\<forall>x \<in> set h. time (b ! 0) \<le> time x)"
    if hi: "heap_inv h"
  proof
    have hb: "heap_inv b" using heap_inv_butlast[OF hi] by (simp add: b_def)
    have "down_ok (b[0 := l]) 0"
      unfolding down_ok_def
    proof (intro conjI allI impI)
      fix i assume i: "0 < i \<and> i < length (b[0 := l]) \<and> (i - 1) div 2 \<noteq> 0"
      then show "time (b[0 := l] ! ((i - 1) div 2)) \<le> time (b[0 := l] ! i)"
        using hb by (simp add: heap_inv_def)
    qed (use b in auto)
    then show "heap_inv (siftup (b[0 := l]) 0)" by (rule heap_inv_siftup_root)
    show "\<forall>x \<in> set h. time (b ! 0) \<le> time x"
    proof
      fix x assume "x \<in> set h"
      then obtain i where i: "i < length h" "x = h ! i" by (auto simp: in_set_conv_nth)
      have "h ! 0 = b ! 0" using b by (simp add: h nth_append)
      then show "time (b ! 0) \<le> time x"
        using heap_inv_root_min[OF hi i(1)] i(2) by simp
    qed
  qed
  show ?thesis using pop ms inv by blast
qed

section \<open>The handlers\<close>

lemma request_acquire:
  assumes "left_chopstick (philosophers s ! i) = Some l"
    and "right_chopstick (philosophers s ! i) = Some r"
    and "is_free (chopsticks s ! l)" "is_free (chopsticks s ! r)"
    and "mi (philosophers s ! i) \<noteq> 0"
  shows "request rnd s i t =
    Inr (s\<lparr>philosophers := (philosophers s)[i := (philosophers s ! i)
               \<lparr>requests := requests (philosophers s ! i) @ [t], started_at := t\<rparr>],
            chopsticks := (chopsticks s)[l := pick_up (chopsticks s ! l),
               r := pick_up ((chopsticks s)[l := pick_up (chopsticks s ! l)] ! r)],
            draws := Suc (draws s)\<rparr>,
         \<lparr>philosopher = i, time = t + rnd (draws s) / mi (philosophers s ! i), type = FINISH\<rparr>)"
  using assms by (simp add: request_def chopstick_is_free_def expovariate_def Let_def)

lemma request_retry:
  assumes "left_chopstick (philosophers s ! i) = Some l"
    and "right_chopstick (philosophers s ! i) = Some r"
    and "\<not> (is_free (chopsticks s ! l) \<and> is_free (chopsticks s ! r))"
    and "lambda_i (philosophers s ! i) \<noteq> 0"
  shows "request rnd s i t =
    Inr (s\<lparr>philosophers := (philosophers s)[i := (philosophers s ! i)
               \<lparr>requests := requests (philosophers s ! i) @ [t],
                failed_attempts := failed_attempts (philosophers s ! i) + 1\<rparr>],
            draws := Suc (draws s)\<rparr>,
         \<lparr>philosopher = i, time = t + rnd (draws s) / lambda_i (philosophers s ! i), type = REQUEST\<rparr>)"
  using assms by (auto simp add: request_def chopstick_is_free_def expovariate_def Let_def)

lemma request_acquire_error:
  assumes "left_chopstick (philosophers s ! i) = Some l"
    and "right_chopstick (philosophers s ! i) = Some r"
    and "is_free (chopsticks s ! l)" "is_free (chopsticks s ! r)"
    and "mi (philosophers s ! i) = 0"
  shows "request rnd s i t = Inl ZeroDivisionError"
  using assms by (simp add: request_def chopstick_is_free_def expovariate_def Let_def)

lemma request_retry_error:
  assumes "left_chopstick (philosophers s ! i) = Some l"
    and "right_chopstick (philosophers s ! i) = Some r"
    and "\<not> (is_free (chopsticks s ! l) \<and> is_free (chopsticks s ! r))"
    and "lambda_i (philosophers s ! i) = 0"
  shows "request rnd s i t = Inl ZeroDivisionError"
  using assms by (auto simp add: request_def chopstick_is_free_def expovariate_def Let_def)

lemma request_cases [consumes 3, case_names acquire retry]:
  assumes res: "request rnd s i t = Inr (s', ev)"
    and l: "left_chopstick (philosophers s ! i) = Some l"
    and r: "right_chopstick (philosophers s ! i) = Some r"
  obtains
    "is_free (chopsticks s ! l)" "is_free (chopsticks s ! r)" "mi (philosophers s ! i) \<noteq> 0"
      "s' = s\<lparr>philosophers := (philosophers s)[i := (philosophers s ! i)
               \<lparr>requests := requests (philosophers s ! i) @ [t], started_at := t\<rparr>],
            chopsticks := (chopsticks s)[l := pick_up (chopsticks s ! l),
               r := pick_up ((chopsticks s)[l := pick_up (chopsticks s ! l)] ! r)],
            draws := Suc (draws s)\<rparr>"
      "ev = \<lparr>philosopher = i, time = t + rnd (draws s) / mi (philosophers s ! i), type = FINISH\<rparr>"
  | "\<not> (is_free (chopsticks s ! l) \<and> is_free (chopsticks s ! r))"
      "lambda_i (philosophers s ! i) \<noteq> 0"
      "s' = s\<lparr>philosophers := (philosophers s)[i := (philosophers s ! i)
               \<lparr>requests := requests (philosophers s ! i) @ [t],
                failed_attempts := failed_attempts (philosophers s ! i) + 1\<rparr>],
            draws := Suc (draws s)\<rparr>"
      "ev = \<lparr>philosopher = i, time = t + rnd (draws s) / lambda_i (philosophers s ! i), type = REQUEST\<rparr>"
proof (cases "is_free (chopsticks s ! l) \<and> is_free (chopsticks s ! r)")
  case True
  show ?thesis
  proof (cases "mi (philosophers s ! i) = 0")
    case z: True
    then show ?thesis using request_acquire_error[OF l r _ _ z, of rnd t] True res by simp
  next
    case nz: False
    then show ?thesis using request_acquire[OF l r _ _ nz, of rnd t] True res that(1) by simp
  qed
next
  case False
  show ?thesis
  proof (cases "lambda_i (philosophers s ! i) = 0")
    case z: True
    then show ?thesis using request_retry_error[OF l r False z, of rnd t] res by simp
  next
    case nz: False
    then show ?thesis using request_retry[OF l r False nz, of rnd t] res that(2) False by simp
  qed
qed

lemma finish_ok:
  assumes "left_chopstick (philosophers s ! i) = Some l"
    and "right_chopstick (philosophers s ! i) = Some r"
    and "lambda_i (philosophers s ! i) \<noteq> 0"
  shows "finish rnd s i t =
    Inr (s\<lparr>philosophers := (philosophers s)[i := (philosophers s ! i)
               \<lparr>eating_time := eating_time (philosophers s ! i)
                                 + (t - started_at (philosophers s ! i))\<rparr>],
            chopsticks := (chopsticks s)[l := put_down (chopsticks s ! l),
               r := put_down ((chopsticks s)[l := put_down (chopsticks s ! l)] ! r)],
            draws := Suc (draws s)\<rparr>,
         \<lparr>philosopher = i, time = t + rnd (draws s) / lambda_i (philosophers s ! i), type = REQUEST\<rparr>)"
  using assms by (simp add: finish_def expovariate_def Let_def)

lemma finish_error:
  assumes "left_chopstick (philosophers s ! i) = Some l"
    and "right_chopstick (philosophers s ! i) = Some r"
    and "lambda_i (philosophers s ! i) = 0"
  shows "finish rnd s i t = Inl ZeroDivisionError"
  using assms by (simp add: finish_def expovariate_def Let_def)

lemma finish_cases [consumes 3, case_names finish]:
  assumes res: "finish rnd s i t = Inr (s', ev)"
    and l: "left_chopstick (philosophers s ! i) = Some l"
    and r: "right_chopstick (philosophers s ! i) = Some r"
  obtains "lambda_i (philosophers s ! i) \<noteq> 0"
      "s' = s\<lparr>philosophers := (philosophers s)[i := (philosophers s ! i)
               \<lparr>eating_time := eating_time (philosophers s ! i)
                                 + (t - started_at (philosophers s ! i))\<rparr>],
            chopsticks := (chopsticks s)[l := put_down (chopsticks s ! l),
               r := put_down ((chopsticks s)[l := put_down (chopsticks s ! l)] ! r)],
            draws := Suc (draws s)\<rparr>"
      "ev = \<lparr>philosopher = i, time = t + rnd (draws s) / lambda_i (philosophers s ! i), type = REQUEST\<rparr>"
proof (cases "lambda_i (philosophers s ! i) = 0")
  case True
  then show ?thesis using finish_error[OF l r True, of rnd t] res by simp
next
  case False
  then show ?thesis using finish_ok[OF l r False, of rnd t] res that by simp
qed

lemma nth_update_other: "j \<noteq> i \<Longrightarrow> xs[i := x] ! j = xs ! j"
  by simp

lemma request_untouched:
  assumes res: "request rnd s i t = Inr (s', ev)"
    and l: "left_chopstick (philosophers s ! i) = Some l"
    and r: "right_chopstick (philosophers s ! i) = Some r"
    and i: "i < length (philosophers s)"
  shows "untouched s s' i \<and> philosopher ev = i"
  using res l r
proof (cases rule: request_cases)
  case acquire
  then show ?thesis using i l r by (simp add: untouched_def)
next
  case retry
  then show ?thesis using i l r by (simp add: untouched_def)
qed

lemma finish_untouched:
  assumes res: "finish rnd s i t = Inr (s', ev)"
    and l: "left_chopstick (philosophers s ! i) = Some l"
    and r: "right_chopstick (philosophers s ! i) = Some r"
    and i: "i < length (philosophers s)"
  shows "untouched s s' i \<and> philosopher ev = i \<and> type ev = REQUEST"
  using res l r
proof (cases rule: finish_cases)
  case finish
  then show ?thesis using i l r by (simp add: untouched_def)
qed

lemma untouched_uses:
  "untouched s s' i \<Longrightarrow> uses s' j c = uses s j c"
  by (cases "j = i") (simp_all add: untouched_def uses_def)

lemma untouched_wired:
  "untouched s s' i \<Longrightarrow> wired s \<Longrightarrow> wired s'"
  unfolding wired_def untouched_def by (metis)

section \<open>Mutual exclusion\<close>

lemma core_acquire:
  assumes free: "\<forall>c<n. F c \<longleftrightarrow> \<not> (\<exists>j<n. E j \<and> U j c)"
    and excl: "\<forall>j<n. \<forall>k<n. \<forall>c. E j \<and> E k \<and> U j c \<and> U k c \<longrightarrow> j = k"
    and i: "\<not> E i" "i < n" and lr: "l < n" "r < n" "F l" "F r"
    and U: "\<forall>c. U i c \<longleftrightarrow> c = l \<or> c = r"
    and F': "\<forall>c<n. F' c \<longleftrightarrow> F c \<and> c \<noteq> l \<and> c \<noteq> r"
  shows "(\<forall>c<n. F' c \<longleftrightarrow> \<not> (\<exists>j<n. (E(i := True)) j \<and> U j c)) \<and>
         (\<forall>j<n. \<forall>k<n. \<forall>c. (E(i := True)) j \<and> (E(i := True)) k \<and> U j c \<and> U k c \<longrightarrow> j = k)"
proof (intro conjI allI impI)
  fix c assume c: "c < n"
  show "F' c \<longleftrightarrow> \<not> (\<exists>j<n. (E(i := True)) j \<and> U j c)"
  proof (cases "c = l \<or> c = r")
    case True
    then show ?thesis using F' U i c by auto
  next
    case False
    then have "F' c = F c" using F' c by simp
    moreover have "(\<exists>j<n. (E(i := True)) j \<and> U j c) = (\<exists>j<n. E j \<and> U j c)"
      using False U by auto
    ultimately show ?thesis using free c by simp
  qed
next
  fix j k c
  assume j: "j < n" and k: "k < n"
    and h: "(E(i := True)) j \<and> (E(i := True)) k \<and> U j c \<and> U k c"
  have none: "\<And>m. m < n \<Longrightarrow> E m \<Longrightarrow> U m c \<Longrightarrow> c \<noteq> l \<and> c \<noteq> r"
    using free lr by blast
  show "j = k"
  proof (cases "j = i")
    case True
    then have c: "c = l \<or> c = r" using h U by simp
    show ?thesis
    proof (rule ccontr)
      assume "j \<noteq> k"
      then have "E k" using h True by simp
      then show False using none[OF k] h c by blast
    qed
  next
    case False
    then have Ej: "E j" using h by simp
    show ?thesis
    proof (cases "k = i")
      case True
      then have "c = l \<or> c = r" using h U by simp
      then show ?thesis using none[OF j Ej] h by blast
    next
      case ki: False
      then show ?thesis using excl j k h False by auto
    qed
  qed
qed

lemma core_release:
  assumes free: "\<forall>c<n. F c \<longleftrightarrow> \<not> (\<exists>j<n. E j \<and> U j c)"
    and excl: "\<forall>j<n. \<forall>k<n. \<forall>c. E j \<and> E k \<and> U j c \<and> U k c \<longrightarrow> j = k"
    and i: "E i" "i < n"
    and U: "\<forall>c. U i c \<longleftrightarrow> c = l \<or> c = r"
    and F': "\<forall>c<n. F' c \<longleftrightarrow> F c \<or> c = l \<or> c = r"
  shows "(\<forall>c<n. F' c \<longleftrightarrow> \<not> (\<exists>j<n. (E(i := False)) j \<and> U j c)) \<and>
         (\<forall>j<n. \<forall>k<n. \<forall>c. (E(i := False)) j \<and> (E(i := False)) k \<and> U j c \<and> U k c \<longrightarrow> j = k)"
proof (intro conjI allI impI)
  fix c assume c: "c < n"
  show "F' c \<longleftrightarrow> \<not> (\<exists>j<n. (E(i := False)) j \<and> U j c)"
  proof (cases "c = l \<or> c = r")
    case True
    then have Uic: "U i c" using U by simp
    have "\<not> (\<exists>j<n. (E(i := False)) j \<and> U j c)"
    proof
      assume "\<exists>j<n. (E(i := False)) j \<and> U j c"
      then obtain j where j: "j < n" "j \<noteq> i" "E j" "U j c" by (auto split: if_splits)
      then have "j = i" using excl i Uic by blast
      then show False using j by simp
    qed
    then show ?thesis using F' True c by simp
  next
    case False
    then have "F' c = F c" using F' c by simp
    moreover have "(\<exists>j<n. (E(i := False)) j \<and> U j c) = (\<exists>j<n. E j \<and> U j c)"
      using False U by auto
    ultimately show ?thesis using free c by simp
  qed
next
  fix j k c
  assume "j < n" "k < n" "(E(i := False)) j \<and> (E(i := False)) k \<and> U j c \<and> U k c"
  then show "j = k" using excl by (auto split: if_splits)
qed

lemma wired_refs:
  assumes "wired s" "i < length (philosophers s)"
  shows "left_chopstick (philosophers s ! i) = Some i"
    and "right_chopstick (philosophers s ! i) = Some ((i + 1) mod length (philosophers s))"
    and "i < length (chopsticks s)"
    and "(i + 1) mod length (philosophers s) < length (chopsticks s)"
proof -
  have n: "0 < length (philosophers s)"
    using assms(2) by (rule order.strict_trans1[OF le0])
  show "left_chopstick (philosophers s ! i) = Some i"
    and "right_chopstick (philosophers s ! i) = Some ((i + 1) mod length (philosophers s))"
    and "i < length (chopsticks s)"
    using assms by (simp_all add: wired_def)
  show "(i + 1) mod length (philosophers s) < length (chopsticks s)"
    using assms(1) n by (simp add: wired_def)
qed

lemma wired_uses:
  assumes "wired s" "i < length (philosophers s)"
  shows "uses s i c \<longleftrightarrow> c = i \<or> c = (i + 1) mod length (philosophers s)"
  using assms by (auto simp: wired_def uses_def)

lemma request_core:
  assumes core: "core s E" and notE: "\<not> E i" and i: "i < length (philosophers s)"
    and res: "request rnd s i t = Inr (s', ev)"
  shows "core s' (E(i := (type ev = FINISH)))"
proof -
  define n where "n = length (philosophers s)"
  define l where "l = i"
  define r where "r = (i + 1) mod n"
  have w: "wired s" using core by (simp add: core_def)
  have l: "left_chopstick (philosophers s ! i) = Some l"
    and r: "right_chopstick (philosophers s ! i) = Some r"
    and ln: "l < n" and rn: "r < n" and len: "length (chopsticks s) = n"
    using wired_refs[OF w i] w by (simp_all add: l_def r_def n_def wired_def)
  have unt: "untouched s s' i" using request_untouched[OF res l r i] by simp
  then have w': "wired s'" using w by (rule untouched_wired)
  have n': "length (philosophers s') = n" "length (chopsticks s') = n"
    using unt len by (simp_all add: untouched_def n_def)
  have U: "\<forall>c. uses s i c \<longleftrightarrow> c = l \<or> c = r"
    using wired_uses[OF w i] by (simp add: l_def r_def n_def)
  have free: "\<forall>c<n. is_free (chopsticks s ! c) \<longleftrightarrow> \<not> (\<exists>j<n. E j \<and> uses s j c)"
    and excl: "\<forall>j<n. \<forall>k<n. \<forall>c. E j \<and> E k \<and> uses s j c \<and> uses s k c \<longrightarrow> j = k"
    using core len by (simp_all add: core_def n_def)
  from res l r show ?thesis
  proof (cases rule: request_cases)
    case acquire
    have F': "\<forall>c<n. is_free (chopsticks s' ! c) \<longleftrightarrow> is_free (chopsticks s ! c) \<and> c \<noteq> l \<and> c \<noteq> r"
      using acquire(4) len ln rn by (auto simp: pick_up_def nth_list_update)
    have E': "E(i := (type ev = FINISH)) = E(i := True)" using acquire by simp
    note ca = core_acquire[OF free excl notE i[folded n_def] ln rn acquire(1,2) U F']
    show ?thesis
      unfolding core_def E' n' untouched_uses[OF unt]
      by (intro conjI w' conjunct1[OF ca] conjunct2[OF ca])
  next
    case retry
    have "type ev \<noteq> FINISH" using retry by simp
    then have E': "E(i := (type ev = FINISH)) = E" using notE by (intro ext) simp
    have cs: "chopsticks s' = chopsticks s" using retry by simp
    show ?thesis
      unfolding core_def E' n' untouched_uses[OF unt] cs len
      by (intro conjI w' free excl)
  qed
qed

lemma finish_core:
  assumes core: "core s E" and isE: "E i" and i: "i < length (philosophers s)"
    and res: "finish rnd s i t = Inr (s', ev)"
  shows "core s' (E(i := False))"
proof -
  define n where "n = length (philosophers s)"
  define l where "l = i"
  define r where "r = (i + 1) mod n"
  have w: "wired s" using core by (simp add: core_def)
  have l: "left_chopstick (philosophers s ! i) = Some l"
    and r: "right_chopstick (philosophers s ! i) = Some r"
    and ln: "l < n" and rn: "r < n" and len: "length (chopsticks s) = n"
    using wired_refs[OF w i] w by (simp_all add: l_def r_def n_def wired_def)
  have unt: "untouched s s' i" using finish_untouched[OF res l r i] by simp
  then have w': "wired s'" using w by (rule untouched_wired)
  have n': "length (philosophers s') = n" "length (chopsticks s') = n"
    using unt len by (simp_all add: untouched_def n_def)
  have U: "\<forall>c. uses s i c \<longleftrightarrow> c = l \<or> c = r"
    using wired_uses[OF w i] by (simp add: l_def r_def n_def)
  have free: "\<forall>c<n. is_free (chopsticks s ! c) \<longleftrightarrow> \<not> (\<exists>j<n. E j \<and> uses s j c)"
    and excl: "\<forall>j<n. \<forall>k<n. \<forall>c. E j \<and> E k \<and> uses s j c \<and> uses s k c \<longrightarrow> j = k"
    using core len by (simp_all add: core_def n_def)
  from res l r show ?thesis
  proof (cases rule: finish_cases)
    case finish
    have F': "\<forall>c<n. is_free (chopsticks s' ! c) \<longleftrightarrow> is_free (chopsticks s ! c) \<or> c = l \<or> c = r"
      using finish(2) len ln rn by (auto simp: put_down_def nth_list_update)
    note cr = core_release[OF free excl isE i[folded n_def] U F']
    show ?thesis
      unfolding core_def n' untouched_uses[OF unt]
      by (intro conjI w' conjunct1[OF cr] conjunct2[OF cr])
  qed
qed

section \<open>The event queue along the loop\<close>

lemma loop_body_cases [consumes 1, case_names step]:
  assumes "loop_body rnd s = Inr (e, s')"
  obtains h s1 nxt where "heappop (events s) = Inr (e, h)"
    and "(case type e of
            REQUEST \<Rightarrow> request rnd (s\<lparr>events := h\<rparr>) (philosopher e) (time e)
          | FINISH \<Rightarrow> finish rnd (s\<lparr>events := h\<rparr>) (philosopher e) (time e)) = Inr (s1, nxt)"
    and "s' = s1\<lparr>events := heappush (events s1) nxt\<rparr>"
  using assms unfolding loop_body_def Let_def
  by (auto split: sum.splits prod.splits)

lemma heappop_Inr:
  assumes "heappop q = Inr (e, h)"
  shows "q \<noteq> []" and "mset q = add_mset e (mset h)"
    and "heap_inv q \<Longrightarrow> heap_inv h \<and> (\<forall>x \<in> set q. time e \<le> time x)"
proof -
  show ne: "q \<noteq> []" using assms by (auto simp: heappop_def)
  from heappop_nonempty[OF ne] assms
  show "mset q = add_mset e (mset h)"
    and "heap_inv q \<Longrightarrow> heap_inv h \<and> (\<forall>x \<in> set q. time e \<le> time x)"
    by auto
qed

lemma pop_queue:
  assumes ms: "mset q = add_mset e (mset h)" and d: "distinct (map philosopher q)"
  shows "distinct (map philosopher h)" and "philosopher e \<notin> philosopher ` set h"
    and "set q = insert e (set h)"
proof -
  have "mset (map philosopher q) = mset (map philosopher (e # h))"
    using ms by simp
  then have "distinct (map philosopher (e # h))"
    using d mset_eq_imp_distinct_iff by blast
  then show "distinct (map philosopher h)" and "philosopher e \<notin> philosopher ` set h"
    by simp_all
  have "set_mset (mset q) = set_mset (add_mset e (mset h))" using ms by simp
  then show "set q = insert e (set h)" by simp
qed

lemma set_heappush [simp]: "set (heappush h e) = insert e (set h)"
proof -
  have "set_mset (mset (heappush h e)) = set_mset (add_mset e (mset h))" by simp
  then show ?thesis by (simp del: mset_heappush)
qed

lemma distinct_heappush:
  "distinct (map philosopher (heappush h e)) = distinct (map philosopher (e # h))"
proof -
  have "mset (map philosopher (heappush h e)) = mset (map philosopher (e # h))"
    by simp
  then show ?thesis using mset_eq_imp_distinct_iff by blast
qed

lemma eating_iff: "eating s i \<longleftrightarrow> (\<exists>e \<in> set (events s). philosopher e = i \<and> type e = FINISH)"
  by (simp add: eating_def list_ex_iff)

lemma core_events [simp]: "core (s\<lparr>events := h\<rparr>) E = core s E"
  by (simp add: core_def wired_def uses_def)

lemma core_cong: "(\<And>i. i < length (philosophers s) \<Longrightarrow> E i = E' i) \<Longrightarrow> core s E = core s E'"
  unfolding core_def by (intro arg_cong2[where f = "(\<and>)"] refl) (metis)+

lemma push_inv:
  assumes core: "core s ((eating s)(i := b))"
    and q: "queue_ok s" and fresh: "i \<notin> philosopher ` set (events s)"
    and i: "i < length (philosophers s)"
    and ev: "philosopher ev = i" "b = (type ev = FINISH)"
  shows "inv (s\<lparr>events := heappush (events s) ev\<rparr>)"
proof -
  let ?s' = "s\<lparr>events := heappush (events s) ev\<rparr>"
  have "eating ?s' j = ((eating s)(i := b)) j" for j
    using fresh ev by (auto simp: eating_iff image_iff)
  then have "eating ?s' = (eating s)(i := b)" by (intro ext)
  then have "core ?s' (eating ?s')" using core by simp
  moreover have "queue_ok ?s'"
    using q fresh i ev by (auto simp: queue_ok_def distinct_heappush)
  ultimately show ?thesis by (simp add: inv_def)
qed

lemma request_push_inv:
  assumes inv: "inv s" and fresh: "i \<notin> philosopher ` set (events s)"
    and i: "i < length (philosophers s)"
    and res: "request rnd s i t = Inr (s', ev)"
  shows "inv (s'\<lparr>events := heappush (events s') ev\<rparr>)"
    and "events s' = events s" and "philosopher ev = i"
    and "length (philosophers s') = length (philosophers s)"
proof -
  have w: "wired s" and core: "core s (eating s)" and q: "queue_ok s"
    using inv by (simp_all add: inv_def core_def)
  have notE: "\<not> eating s i" using fresh by (auto simp: eating_iff)
  note refs = wired_refs(1,2)[OF w i]
  have unt: "untouched s s' i" and ev: "philosopher ev = i"
    using request_untouched[OF res refs i] by simp_all
  have same: "events s' = events s" "length (philosophers s') = length (philosophers s)"
    using unt by (simp_all add: untouched_def)
  have eq: "eating s' = eating s" by (intro ext) (simp add: eating_def same)
  have "core s' ((eating s')(i := (type ev = FINISH)))"
    using request_core[OF core notE i res] eq by simp
  moreover have "queue_ok s'" using q same by (simp add: queue_ok_def)
  ultimately show "inv (s'\<lparr>events := heappush (events s') ev\<rparr>)"
    using fresh i ev same by (intro push_inv[where i = i and b = "type ev = FINISH"]) simp_all
  show "events s' = events s" "philosopher ev = i"
    "length (philosophers s') = length (philosophers s)"
    using same ev by simp_all
qed

lemma loop_body_inv:
  assumes inv: "inv s" and res: "loop_body rnd s = Inr (e, s')"
  shows "inv s'"
  using res
proof (cases rule: loop_body_cases)
  case (step h s1 nxt)
  define i where "i = philosopher e"
  define sp where "sp = s\<lparr>events := h\<rparr>"
  have core: "core s (eating s)" and q: "queue_ok s" and w: "wired s"
    using inv by (simp_all add: inv_def core_def)
  note pop = pop_queue[OF heappop_Inr(2)[OF step(1)] q[unfolded queue_ok_def, THEN conjunct1]]
  have i: "i < length (philosophers s)" using q pop(3) by (simp add: queue_ok_def i_def)
  have fresh: "i \<notin> philosopher ` set (events sp)" using pop(2) by (simp add: sp_def i_def)
  have qp: "queue_ok sp" using q pop by (simp add: queue_ok_def sp_def)
  have ip: "i < length (philosophers sp)" using i by (simp add: sp_def)
  have notEp: "\<not> eating sp i" using fresh by (auto simp: eating_iff)
  have eat_other: "eating sp j = eating s j" if "j \<noteq> i" for j
    using pop(3) that by (auto simp: eating_iff sp_def i_def)
  have wp: "wired sp" using w by (simp add: wired_def sp_def)
  note refs = wired_refs(1,2)[OF wp ip]
  show ?thesis
  proof (cases "type e")
    case REQUEST
    have "\<not> eating s i"
    proof
      assume "eating s i"
      then obtain x where x: "x \<in> set (events s)" "philosopher x = i" "type x = FINISH"
        by (auto simp: eating_iff)
      then have "x \<noteq> e" using REQUEST by auto
      then have "x \<in> set h" using x pop(3) by simp
      then show False using pop(2) x by (auto simp: i_def image_iff)
    qed
    then have "eating sp = eating s" using eat_other notEp by (intro ext) metis
    then have "inv sp" using core qp by (simp add: inv_def sp_def)
    moreover have "request rnd sp i (time e) = Inr (s1, nxt)"
      using step(2) REQUEST by (simp add: sp_def i_def)
    ultimately show ?thesis
      using request_push_inv(1)[OF _ fresh ip] step(3) by simp
  next
    case FINISH
    have Ei: "eating s i" using pop(3) FINISH by (auto simp: eating_iff i_def)
    have fin: "finish rnd sp i (time e) = Inr (s1, nxt)"
      using step(2) FINISH by (simp add: sp_def i_def)
    have unt: "untouched sp s1 i" and nx: "philosopher nxt = i" "type nxt = REQUEST"
      using finish_untouched[OF fin refs ip] by simp_all
    have same: "events s1 = events sp" "length (philosophers s1) = length (philosophers sp)"
      using unt by (simp_all add: untouched_def)
    have csp: "core sp (eating s)" using core by (simp add: sp_def)
    have "core s1 ((eating s)(i := False))"
      by (rule finish_core[where E = "eating s", OF csp Ei ip fin])
    moreover have "(eating s)(i := False) = (eating s1)(i := False)"
      using eat_other by (intro ext) (simp add: eating_def same)
    ultimately have "core s1 ((eating s1)(i := False))" by simp
    moreover have "queue_ok s1" using qp same by (simp add: queue_ok_def)
    ultimately have "inv (s1\<lparr>events := heappush (events s1) nxt\<rparr>)"
      using fresh ip nx same by (intro push_inv[where i = i and b = False]) simp_all
    then show ?thesis using step(3) by simp
  qed
qed

section \<open>Construction and seeding\<close>

lemma Simulation_init_simps [simp]:
  "events (Simulation_init m T' ls) = []"
  "T (Simulation_init m T' ls) = T'"
  "draws (Simulation_init m T' ls) = 0"
  "length (philosophers (Simulation_init m T' ls)) = length ls"
  "length (chopsticks (Simulation_init m T' ls)) = length ls"
  by (simp_all add: Simulation_init_def Let_def)

lemma Simulation_init_nth:
  assumes "i < length ls"
  shows "philosophers (Simulation_init m T' ls) ! i =
           \<lparr>mi = m, lambda_i = ls ! i, left_chopstick = Some i,
            right_chopstick = Some ((i + 1) mod length ls),
            failed_attempts = 0, eating_time = 0, started_at = 0, requests = []\<rparr>"
    and "chopsticks (Simulation_init m T' ls) ! i = \<lparr>is_free = True\<rparr>"
  using assms
  by (simp_all add: Simulation_init_def Let_def nth_enumerate_eq Philosopher_init_def
      Chopstick_init_def)

lemma init_inv: "inv (Simulation_init m T' ls)"
proof -
  let ?s = "Simulation_init m T' ls"
  have w: "wired ?s" by (simp add: wired_def Simulation_init_nth)
  have "\<not> eating ?s i" for i by (simp add: eating_def)
  moreover have "\<forall>c<length (chopsticks ?s). is_free (chopsticks ?s ! c)"
    by (simp add: Simulation_init_nth)
  ultimately have "core ?s (eating ?s)" using w unfolding core_def by blast
  then show ?thesis by (simp add: inv_def queue_ok_def)
qed

lemma seed_inv:
  assumes "inv s" "distinct is" "set is \<inter> philosopher ` set (events s) = {}"
    and "\<forall>i \<in> set is. i < length (philosophers s)"
    and "seed rnd is s = Inr s'"
  shows "inv s' \<and> length (philosophers s') = length (philosophers s) \<and>
         philosopher ` set (events s') = philosopher ` set (events s) \<union> set is"
  using assms
proof (induction "is" arbitrary: s)
  case Nil
  then show ?case by simp
next
  case (Cons i "is")
  from Cons.prems(5) obtain s1 ev where
    req: "request rnd s i 0 = Inr (s1, ev)"
    and rest: "seed rnd is (s1\<lparr>events := heappush (events s1) ev\<rparr>) = Inr s'"
    by (auto split: sum.splits)
  let ?s2 = "s1\<lparr>events := heappush (events s1) ev\<rparr>"
  have fresh: "i \<notin> philosopher ` set (events s)" and i: "i < length (philosophers s)"
    using Cons.prems(3,4) by auto
  note step = request_push_inv[OF Cons.prems(1) fresh i req]
  have ev2: "philosopher ` set (events ?s2) = insert i (philosopher ` set (events s))"
    using step(2,3) by simp
  have "inv s' \<and> length (philosophers s') = length (philosophers ?s2) \<and>
        philosopher ` set (events s') = philosopher ` set (events ?s2) \<union> set is"
  proof (rule Cons.IH[OF step(1) _ _ _ rest])
    show "distinct is" using Cons.prems(2) by simp
    show "set is \<inter> philosopher ` set (events ?s2) = {}"
      using Cons.prems(2,3) unfolding ev2 by auto
    show "\<forall>i\<in>set is. i < length (philosophers ?s2)"
      using Cons.prems(4) step(4) by simp
  qed
  then show ?case using step(4) ev2 by auto
qed

lemma seed_start:
  assumes "seed rnd [0..<length ls] (Simulation_init m T' ls) = Inr s0"
  shows "inv s0" and "length (philosophers s0) = length ls"
    and "length (events s0) = length ls"
proof -
  note r = seed_inv[OF init_inv _ _ _ assms]
  have r': "inv s0 \<and> length (philosophers s0) = length ls \<and>
            philosopher ` set (events s0) = {0..<length ls}"
    using r by simp
  then show "inv s0" and "length (philosophers s0) = length ls" by simp_all
  have "distinct (map philosopher (events s0))"
    using r' by (simp add: inv_def queue_ok_def)
  then have "length (events s0) = card (philosopher ` set (events s0))"
    by (metis distinct_card length_map set_map)
  then show "length (events s0) = length ls" using r' by simp
qed

section \<open>Invariants of an execution\<close>

lemma loop_body_facts:
  assumes inv: "inv s" and res: "loop_body rnd s = Inr (e, s')"
  shows "e \<in> set (events s)"
    and "\<exists>nxt. philosopher nxt = philosopher e \<and>
               mset (events s') = add_mset nxt (mset (events s) - {#e#})"
    and "length (events s') = length (events s)"
    and "length (philosophers s') = length (philosophers s)"
    and "T s' = T s"
proof -
  from res obtain h s1 nxt where step: "heappop (events s) = Inr (e, h)"
    "(case type e of
        REQUEST \<Rightarrow> request rnd (s\<lparr>events := h\<rparr>) (philosopher e) (time e)
      | FINISH \<Rightarrow> finish rnd (s\<lparr>events := h\<rparr>) (philosopher e) (time e)) = Inr (s1, nxt)"
    "s' = s1\<lparr>events := heappush (events s1) nxt\<rparr>"
    by (rule loop_body_cases)
  define sp where "sp = s\<lparr>events := h\<rparr>"
  have q: "queue_ok s" and w: "wired s" using inv by (simp_all add: inv_def core_def)
  note ms = heappop_Inr(2)[OF step(1)]
  note pop = pop_queue[OF ms q[unfolded queue_ok_def, THEN conjunct1]]
  show e: "e \<in> set (events s)" using pop(3) by simp
  have ip: "philosopher e < length (philosophers sp)"
    using q e by (simp add: queue_ok_def sp_def)
  have wp: "wired sp" using w by (simp add: wired_def sp_def)
  note refs = wired_refs(1,2)[OF wp ip]
  have "untouched sp s1 (philosopher e) \<and> philosopher nxt = philosopher e"
  proof (cases "type e")
    case REQUEST
    then show ?thesis using request_untouched[OF _ refs ip] step(2) by (simp add: sp_def)
  next
    case FINISH
    then show ?thesis using finish_untouched[OF _ refs ip] step(2) by (simp add: sp_def)
  qed
  then have same: "events s1 = h" "length (philosophers s1) = length (philosophers s)"
    "T s1 = T s" and nx: "philosopher nxt = philosopher e"
    by (simp_all add: untouched_def sp_def)
  have "mset (events s') = add_mset nxt (mset (events s) - {#e#})"
    using step(3) same ms by simp
  then show "\<exists>nxt. philosopher nxt = philosopher e \<and>
               mset (events s') = add_mset nxt (mset (events s) - {#e#})"
    using nx by blast
  have "length (events s) = Suc (length h)"
    using ms by (metis size_add_mset size_mset)
  then show "length (events s') = length (events s)" using step(3) same by simp
  show "length (philosophers s') = length (philosophers s)" "T s' = T s"
    using step(3) same by simp_all
qed

lemma exec_inv:
  assumes "exec rnd c tr c'" "inv (snd c)"
  shows "inv (snd c') \<and> length (events (snd c')) = length (events (snd c)) \<and>
         length (philosophers (snd c')) = length (philosophers (snd c)) \<and>
         T (snd c') = T (snd c)"
  using assms
proof (induction rule: exec.induct)
  case (exec_start c)
  then show ?case by simp
next
  case (exec_step c tr t s event s')
  then have i: "inv s" by simp
  show ?case
    using exec_step.IH[OF exec_step.prems] loop_body_inv[OF i exec_step.hyps(3)]
      loop_body_facts(3,4,5)[OF i exec_step.hyps(3)]
    by simp
qed

lemma request_not_IndexError: "request rnd s i t \<noteq> Inl IndexError"
  unfolding request_def chopstick_is_free_def expovariate_def Let_def
  by (simp split: option.splits sum.splits)

lemma finish_not_IndexError: "finish rnd s i t \<noteq> Inl IndexError"
  unfolding finish_def expovariate_def Let_def
  by (simp split: option.splits sum.splits)

lemma seed_not_IndexError: "seed rnd is s \<noteq> Inl IndexError"
proof (induction "is" arbitrary: s)
  case Nil
  then show ?case by simp
next
  case (Cons i "is")
  then show ?case
    using request_not_IndexError[of rnd s i 0] by (auto split: sum.splits)
qed

lemma loop_body_IndexError:
  "loop_body rnd s = Inl IndexError \<longleftrightarrow> events s = []"
proof
  assume err: "loop_body rnd s = Inl IndexError"
  show "events s = []"
  proof (rule ccontr)
    assume "events s \<noteq> []"
    then obtain e h where pop: "heappop (events s) = Inr (e, h)"
      using heappop_nonempty by blast
    then show False
      using err request_not_IndexError finish_not_IndexError
      unfolding loop_body_def Let_def
      by (auto split: sum.splits EventTypes.splits)
  qed
next
  assume "events s = []"
  then show "loop_body rnd s = Inl IndexError"
    by (simp add: loop_body_def)
qed

section \<open>The while loop and its executions\<close>

lemma request_T:
  "request rnd s i t = Inr (s', ev) \<Longrightarrow> T s' = T s \<and> events s' = events s"
  unfolding request_def Let_def chopstick_is_free_def expovariate_def
  by (auto split: option.splits sum.splits if_splits)

lemma finish_T:
  "finish rnd s i t = Inr (s', ev) \<Longrightarrow> T s' = T s \<and> events s' = events s"
  unfolding finish_def Let_def expovariate_def
  by (auto split: option.splits sum.splits if_splits)

lemma loop_body_T:
  assumes "loop_body rnd s = Inr (e, s')"
  shows "T s' = T s"
  using assms
proof (cases rule: loop_body_cases)
  case (step h s1 nxt)
  have "T s1 = T s"
    using step(2) request_T[of rnd "s\<lparr>events := h\<rparr>" "philosopher e" "time e" s1 nxt]
      finish_T[of rnd "s\<lparr>events := h\<rparr>" "philosopher e" "time e" s1 nxt]
    by (cases "type e") simp_all
  then show ?thesis using step(3) by simp
qed

lemma exec_T: "exec rnd c tr c' \<Longrightarrow> T (snd c') = T (snd c)"
  by (induction rule: exec.induct) (simp_all add: loop_body_T)

lemma exec_prepend:
  assumes "exec rnd c tr c'" "c = (time e, s1)" "t < T s" "loop_body rnd s = Inr (e, s1)"
  shows "exec rnd (t, s) ((e, s) # tr) c'"
  using assms
proof (induction rule: exec.induct)
  case (exec_start c)
  have "exec rnd (t, s) ([] @ [(e, s)]) (time e, s1)"
    by (rule exec.exec_step[OF exec.exec_start[of rnd "(t, s)"] exec_start.prems(2,3)])
  then show ?case using exec_start.prems(1) by simp
next
  case (exec_step c tr t2 s2 event s')
  have "exec rnd (t, s) (((e, s) # tr) @ [(event, s2)]) (time event, s')"
    by (rule exec.exec_step[OF exec_step.IH[OF exec_step.prems] exec_step.hyps(2,3)])
  then show ?case by simp
qed

lemma exec_run_loop:
  "exec rnd c tr c' \<Longrightarrow> run_loop rnd (fst c) (snd c) = run_loop rnd (fst c') (snd c')"
proof (induction rule: exec.induct)
  case (exec_start c)
  show ?case by simp
next
  case (exec_step c tr t s event s')
  have "run_loop rnd t s = run_loop rnd (time event) s'"
    using exec_step.hyps(2,3) by (subst run_loop.simps) simp
  then show ?case using exec_step.IH by simp
qed

lemma run_loop_Some:
  assumes "run_loop rnd t s = Some r"
  shows "\<exists>tr t' s'. exec rnd (t, s) tr (t', s') \<and>
           (if t' < T s' then (\<exists>e. loop_body rnd s' = Inl e \<and> r = Inl e) else r = Inr s')"
proof (rule run_loop.raw_induct[OF _ assms], goal_cases)
  case (1 run_loop rnd t s r)
  note IH = "1"(1) and body = "1"(2)
  show ?case
  proof (cases "t < T s")
    case False
    then have "r = Inr s" using body by simp
    then show ?thesis using False exec_start[of rnd "(t, s)"] by auto
  next
    case True
    show ?thesis
    proof (cases "loop_body rnd s")
      case (Inl e)
      then have "r = Inl e" using body True by simp
      then show ?thesis using True Inl exec_start[of rnd "(t, s)"] by auto
    next
      case (Inr x)
      obtain ev s1 where x: "x = (ev, s1)" by (cases x)
      have "run_loop rnd (time ev) s1 = Some r" using body True Inr x by simp
      then obtain tr t' s' where ex: "exec rnd (time ev, s1) tr (t', s')"
        and r: "if t' < T s' then (\<exists>e. loop_body rnd s' = Inl e \<and> r = Inl e) else r = Inr s'"
        using IH by blast
      have "exec rnd (t, s) ((ev, s) # tr) (t', s')"
        using exec_prepend[OF ex refl True] Inr x by simp
      then show ?thesis using r by blast
    qed
  qed
qed

lemma run_loop_returns_iff:
  "run_loop rnd t0 s0 = Some (Inr s_end) \<longleftrightarrow>
     (\<exists>tr t'. exec rnd (t0, s0) tr (t', s_end) \<and> T s_end \<le> t')"
proof
  assume "run_loop rnd t0 s0 = Some (Inr s_end)"
  from run_loop_Some[OF this] obtain tr t' s' where ex: "exec rnd (t0, s0) tr (t', s')"
    and r: "if t' < T s' then (\<exists>e. loop_body rnd s' = Inl e \<and> Inr s_end = Inl e)
            else Inr s_end = (Inr s' :: error + Simulation)"
    by blast
  have nlt: "\<not> t' < T s'" using r by auto
  then have "s' = s_end" and "T s_end \<le> t'" using r by auto
  then show "\<exists>tr t'. exec rnd (t0, s0) tr (t', s_end) \<and> T s_end \<le> t'"
    using ex by blast
next
  assume "\<exists>tr t'. exec rnd (t0, s0) tr (t', s_end) \<and> T s_end \<le> t'"
  then obtain tr t' where ex: "exec rnd (t0, s0) tr (t', s_end)" and t': "T s_end \<le> t'"
    by blast
  have "run_loop rnd t0 s0 = run_loop rnd t' s_end" using exec_run_loop[OF ex] by simp
  also have "\<dots> = Some (Inr s_end)" using t' by (subst run_loop.simps) simp
  finally show "run_loop rnd t0 s0 = Some (Inr s_end)" .
qed

lemma exec_trace:
  assumes "exec rnd (t0, s0) tr (t', s')"
  shows "(\<forall>k < length tr.
            loop_body rnd (snd (tr ! k))
              = Inr (fst (tr ! k), if Suc k < length tr then snd (tr ! Suc k) else s') \<and>
            (Suc k < length tr \<longrightarrow> time (fst (tr ! k)) < T s0)) \<and>
         (tr = [] \<longrightarrow> t' = t0 \<and> s' = s0) \<and>
         (tr \<noteq> [] \<longrightarrow> t' = time (fst (last tr)) \<and> t0 < T s0 \<and> snd (hd tr) = s0)"
  using assms
proof (induction "(t0, s0)" tr "(t', s')" arbitrary: t' s' rule: exec.induct)
  case exec_start
  then show ?case by simp
next
  case (exec_step tr t s event s')
  note IH = exec_step.hyps(2)
  have Ts: "T s = T s0" using exec_T[OF exec_step.hyps(1)] by simp
  let ?tr = "tr @ [(event, s)]"
  have "loop_body rnd (snd (?tr ! k))
          = Inr (fst (?tr ! k), if Suc k < length ?tr then snd (?tr ! Suc k) else s') \<and>
        (Suc k < length ?tr \<longrightarrow> time (fst (?tr ! k)) < T s0)"
    if k: "k < length ?tr" for k
  proof (cases "k < length tr")
    case False
    then have "k = length tr" using k by simp
    then show ?thesis using exec_step.hyps(4) by simp
  next
    case True
    note old = IH[THEN conjunct1, rule_format, OF True]
    show ?thesis
    proof (cases "Suc k < length tr")
      case True
      then show ?thesis using old \<open>k < length tr\<close> by (simp add: nth_append)
    next
      case False
      then have last: "Suc k = length tr" using \<open>k < length tr\<close> by simp
      then have "tr \<noteq> []" by auto
      then have "t = time (fst (last tr))" using IH by simp
      moreover have "k = length tr - 1" using last by simp
      then have "last tr = tr ! k" using \<open>tr \<noteq> []\<close> by (simp add: last_conv_nth)
      ultimately have "time (fst (tr ! k)) < T s0" using exec_step.hyps(3) Ts by simp
      then show ?thesis using old False last by (simp add: nth_append)
    qed
  qed
  moreover have "t0 < T s0 \<and> snd (hd ?tr) = s0"
  proof (cases "tr = []")
    case True
    then show ?thesis using IH exec_step.hyps(3) by simp
  next
    case False
    then show ?thesis using IH by simp
  qed
  ultimately show ?case by simp
qed

lemma Simulation_run_returns_iff:
  "Simulation_run rnd sim = Some (Inr s_fin) \<longleftrightarrow>
     (\<exists>s0 tr t' s'. seed rnd [0..<length (philosophers sim)] sim = Inr s0 \<and>
        exec rnd (0, s0) tr (t', s') \<and> T s' \<le> t' \<and> s_fin = s'\<lparr>events := []\<rparr>)"
proof (cases "seed rnd [0..<length (philosophers sim)] sim")
  case (Inl e)
  then show ?thesis by (simp add: Simulation_run_def)
next
  case (Inr s0)
  have "Simulation_run rnd sim = Some (Inr s_fin) \<longleftrightarrow>
          (\<exists>s'. run_loop rnd 0 s0 = Some (Inr s') \<and> s_fin = s'\<lparr>events := []\<rparr>)"
    using Inr by (auto simp: Simulation_run_def split: option.splits sum.splits)
  then show ?thesis using Inr by (auto simp: run_loop_returns_iff)
qed

section \<open>The concrete run\<close>

lemmas eval_defs =
  Simulation_init_def Philosopher_init_def Chopstick_init_def request_def finish_def
  chopstick_is_free_def expovariate_def pick_up_def put_down_def heappush_def heappop_def
  siftdown_def siftup_def siftdown_loop.simps siftup_loop.simps Event_lt_def loop_body_def
  rnd_ex_def Let_def enumerate_eq_zip

lemma seed_ex: "seed rnd_ex [0..<length [1, 1, 1 :: real]] (Simulation_init 1 1 [1, 1, 1]) = Inr seeded_ex"
  by (simp add: eval_defs upt_rec seeded_ex_def)

lemma step1_ex: "loop_body rnd_ex seeded_ex = Inr (e1_ex, s1_ex)"
  by (simp add: eval_defs seeded_ex_def e1_ex_def s1_ex_def)

lemma step2_ex: "loop_body rnd_ex s1_ex = Inr (e2_ex, s2_ex)"
  by (simp add: eval_defs s1_ex_def e2_ex_def s2_ex_def)

lemma exec1_ex: "exec rnd_ex (0, seeded_ex) [(e1_ex, seeded_ex)] (0, s1_ex)"
proof -
  have "exec rnd_ex (0, seeded_ex) ([] @ [(e1_ex, seeded_ex)]) (time e1_ex, s1_ex)"
    by (rule exec_step[OF exec_start _ step1_ex]) (simp add: seeded_ex_def)
  then show ?thesis by (simp add: e1_ex_def)
qed

lemma exec2_ex: "exec rnd_ex (0, seeded_ex) trace_ex (3, s2_ex)"
proof -
  have "exec rnd_ex (0, seeded_ex) ([(e1_ex, seeded_ex)] @ [(e2_ex, s1_ex)]) (time e2_ex, s2_ex)"
    by (rule exec_step[OF exec1_ex _ step2_ex]) (simp add: s1_ex_def)
  then show ?thesis by (simp add: e2_ex_def trace_ex_def)
qed

lemma run_ex: "Simulation_run rnd_ex (Simulation_init 1 1 [1, 1, 1]) = Some (Inr final_ex)"
proof -
  have "seed rnd_ex [0..<length (philosophers (Simulation_init 1 1 [1, 1, 1]))]
          (Simulation_init 1 1 [1, 1, 1]) = Inr seeded_ex"
    using seed_ex by simp
  moreover have "T s2_ex \<le> 3" by (simp add: s2_ex_def)
  ultimately show ?thesis
    using exec2_ex unfolding Simulation_run_returns_iff final_ex_def by blast
qed

lemma rnd_ex_nonneg: "0 \<le> rnd_ex k"
  by (simp add: rnd_ex_def)

lemma seed_ex2: "seed rnd_ex2 [0..<length [1, 1, 1 :: real]] (Simulation_init 1 3 [1, 1, 1]) = Inr seeded_ex2"
  by (simp add: eval_defs rnd_ex2_def upt_rec seeded_ex2_def)

lemma step1_ex2: "loop_body rnd_ex2 seeded_ex2 = Inr (e1_ex2, s1_ex2)"
  by (simp add: eval_defs rnd_ex2_def seeded_ex2_def e1_ex2_def s1_ex2_def)

lemma step2_ex2: "loop_body rnd_ex2 s1_ex2 = Inr (e2_ex2, s2_ex2)"
  by (simp add: eval_defs rnd_ex2_def s1_ex2_def e2_ex2_def s2_ex2_def)

lemma step3_ex2: "loop_body rnd_ex2 s2_ex2 = Inr (e3_ex2, s3_ex2)"
  by (simp add: eval_defs rnd_ex2_def s2_ex2_def e3_ex2_def s3_ex2_def)

lemma exec_ex2: "exec rnd_ex2 (0, seeded_ex2) trace_ex2 (3, s3_ex2)"
proof -
  have 1: "exec rnd_ex2 (0, seeded_ex2) ([] @ [(e1_ex2, seeded_ex2)]) (time e1_ex2, s1_ex2)"
    by (rule exec_step[OF exec_start _ step1_ex2]) (simp add: seeded_ex2_def)
  have t1: "time e1_ex2 < T s1_ex2" by (simp add: e1_ex2_def s1_ex2_def)
  have 2: "exec rnd_ex2 (0, seeded_ex2) (([] @ [(e1_ex2, seeded_ex2)]) @ [(e2_ex2, s1_ex2)])
             (time e2_ex2, s2_ex2)"
    by (rule exec_step[OF 1 t1 step2_ex2])
  have t2: "time e2_ex2 < T s2_ex2" by (simp add: e2_ex2_def s2_ex2_def)
  have "exec rnd_ex2 (0, seeded_ex2)
          ((([] @ [(e1_ex2, seeded_ex2)]) @ [(e2_ex2, s1_ex2)]) @ [(e3_ex2, s2_ex2)])
          (time e3_ex2, s3_ex2)"
    by (rule exec_step[OF 2 t2 step3_ex2])
  then show ?thesis by (simp add: trace_ex2_def e3_ex2_def)
qed

lemma rnd_ex2_nonneg: "0 \<le> rnd_ex2 k"
  by (simp add: rnd_ex2_def)

section \<open>Time along an execution\<close>

lemma timedP_events [simp]: "timedP t (s\<lparr>events := h\<rparr>) = timedP t s"
  by (simp add: timedP_def)

lemma timedP_mono: "timedP t s \<Longrightarrow> t \<le> t' \<Longrightarrow> timedP t' s"
  unfolding timedP_def by (meson order_trans)

lemma timedP_update:
  assumes old: "timedP t s" and ps: "philosophers s' = (philosophers s)[i := p]"
    and p: "0 < mi p" "0 < lambda_i p" "sorted (requests p)" "\<forall>x \<in> set (requests p). x \<le> t"
      "0 \<le> started_at p" "started_at p \<le> t" "0 \<le> eating_time p"
  shows "timedP t s'"
proof -
  have "q = p \<or> q \<in> set (philosophers s)" if "q \<in> set (philosophers s')" for q
    using that set_update_subset_insert[of "philosophers s" i p] ps by auto
  then show ?thesis using old p unfolding timedP_def by blast
qed

lemma request_timedP:
  assumes old: "timedP t s" and i: "i < length (philosophers s)"
    and l: "left_chopstick (philosophers s ! i) = Some l"
    and r: "right_chopstick (philosophers s ! i) = Some r"
    and rnd: "0 \<le> rnd (draws s)"
    and res: "request rnd s i t = Inr (s', ev)"
  shows "timedP t s' \<and> t \<le> time ev"
proof -
  have mem: "philosophers s ! i \<in> set (philosophers s)" using i by simp
  then have p: "0 < mi (philosophers s ! i)" "0 < lambda_i (philosophers s ! i)"
    "sorted (requests (philosophers s ! i))"
    "\<forall>x \<in> set (requests (philosophers s ! i)). x \<le> t"
    "0 \<le> started_at (philosophers s ! i)" "started_at (philosophers s ! i) \<le> t"
    "0 \<le> eating_time (philosophers s ! i)" and t: "0 \<le> t"
    using old unfolding timedP_def by blast+
  have srt: "sorted (requests (philosophers s ! i) @ [t])"
    using p(3,4) by (simp add: sorted_append)
  from res l r show ?thesis
  proof (cases rule: request_cases)
    case acquire
    have "timedP t s'"
      by (rule timedP_update[OF old, where i = i and p = "(philosophers s ! i)
               \<lparr>requests := requests (philosophers s ! i) @ [t], started_at := t\<rparr>"])
         (use acquire(4) p srt t in simp_all)
    moreover have "0 \<le> rnd (draws s) / mi (philosophers s ! i)" using rnd p(1) by simp
    ultimately show ?thesis using acquire(5) by simp
  next
    case retry
    have "timedP t s'"
      by (rule timedP_update[OF old, where i = i and p = "(philosophers s ! i)
               \<lparr>requests := requests (philosophers s ! i) @ [t],
                failed_attempts := failed_attempts (philosophers s ! i) + 1\<rparr>"])
         (use retry(3) p srt t in simp_all)
    moreover have "0 \<le> rnd (draws s) / lambda_i (philosophers s ! i)" using rnd p(2) by simp
    ultimately show ?thesis using retry(4) by simp
  qed
qed

lemma finish_timedP:
  assumes old: "timedP t s" and i: "i < length (philosophers s)"
    and l: "left_chopstick (philosophers s ! i) = Some l"
    and r: "right_chopstick (philosophers s ! i) = Some r"
    and rnd: "0 \<le> rnd (draws s)"
    and res: "finish rnd s i t = Inr (s', ev)"
  shows "timedP t s' \<and> t \<le> time ev"
proof -
  have mem: "philosophers s ! i \<in> set (philosophers s)" using i by simp
  then have p: "0 < mi (philosophers s ! i)" "0 < lambda_i (philosophers s ! i)"
    "sorted (requests (philosophers s ! i))"
    "\<forall>x \<in> set (requests (philosophers s ! i)). x \<le> t"
    "0 \<le> started_at (philosophers s ! i)" "started_at (philosophers s ! i) \<le> t"
    "0 \<le> eating_time (philosophers s ! i)" and t: "0 \<le> t"
    using old unfolding timedP_def by blast+
  from res l r show ?thesis
  proof (cases rule: finish_cases)
    case finish
    have "timedP t s'"
      by (rule timedP_update[OF old, where i = i and p = "(philosophers s ! i)
               \<lparr>eating_time := eating_time (philosophers s ! i)
                                 + (t - started_at (philosophers s ! i))\<rparr>"])
         (use finish(2) p t in simp_all)
    moreover have "0 \<le> rnd (draws s) / lambda_i (philosophers s ! i)" using rnd p(2) by simp
    ultimately show ?thesis using finish(3) by simp
  qed
qed

lemma push_timedQ:
  assumes "heap_inv h" "\<forall>x \<in> set h. t \<le> time x" "t \<le> time ev"
  shows "timedQ t (s\<lparr>events := heappush h ev\<rparr>)"
  using assms by (simp add: timedQ_def heap_inv_heappush)

lemma loop_body_timed:
  assumes inv: "inv s" and q: "timedQ t s" and p: "timedP t s" and rnd: "\<forall>k. 0 \<le> rnd k"
    and res: "loop_body rnd s = Inr (e, s')"
  shows "t \<le> time e \<and> timedQ (time e) s' \<and> timedP (time e) s'"
  using res
proof (cases rule: loop_body_cases)
  case (step h s1 nxt)
  define sp where "sp = s\<lparr>events := h\<rparr>"
  have w: "wired s" and qok: "queue_ok s" using inv by (simp_all add: inv_def core_def)
  have hi: "heap_inv (events s)" and ge: "\<forall>x \<in> set (events s). t \<le> time x"
    using q by (simp_all add: timedQ_def)
  note ms = heappop_Inr(2)[OF step(1)]
  have hh: "heap_inv h" and least: "\<forall>x \<in> set (events s). time e \<le> time x"
    using heappop_Inr(3)[OF step(1) hi] by simp_all
  have sets: "set (events s) = insert e (set h)"
    using pop_queue(3)[OF ms] qok by (simp add: queue_ok_def)
  have te: "t \<le> time e" using ge sets by simp
  have ip: "philosopher e < length (philosophers sp)"
    using qok sets by (simp add: queue_ok_def sp_def)
  have wp: "wired sp" using w by (simp add: wired_def sp_def)
  note refs = wired_refs(1,2)[OF wp ip]
  have pp: "timedP (time e) sp" using timedP_mono[OF p te] by (simp add: sp_def)
  have r0: "0 \<le> rnd (draws sp)" using rnd by simp
  have "timedP (time e) s1 \<and> time e \<le> time nxt \<and> events s1 = h"
  proof (cases "type e")
    case REQUEST
    then have req: "request rnd sp (philosopher e) (time e) = Inr (s1, nxt)"
      using step(2) by (simp add: sp_def)
    show ?thesis
      using request_timedP[OF pp ip refs r0 req] request_T[OF req] by (simp add: sp_def)
  next
    case FINISH
    then have fin: "finish rnd sp (philosopher e) (time e) = Inr (s1, nxt)"
      using step(2) by (simp add: sp_def)
    show ?thesis
      using finish_timedP[OF pp ip refs r0 fin] finish_T[OF fin] by (simp add: sp_def)
  qed
  then have p1: "timedP (time e) s1" and nx: "time e \<le> time nxt" and ev1: "events s1 = h"
    by simp_all
  have "timedQ (time e) (s1\<lparr>events := heappush h nxt\<rparr>)"
    using hh least sets nx by (intro push_timedQ) auto
  then show ?thesis using te p1 step(3) ev1 by simp
qed

lemma seed_timed:
  assumes "wired s" "\<forall>i \<in> set is. i < length (philosophers s)"
    and "timedQ 0 s" "timedP 0 s" "\<forall>k. 0 \<le> rnd k"
    and "seed rnd is s = Inr s'"
  shows "timedQ 0 s' \<and> timedP 0 s'"
  using assms
proof (induction "is" arbitrary: s)
  case Nil
  then show ?case by simp
next
  case (Cons i "is")
  from Cons.prems(6) obtain s1 ev where
    req: "request rnd s i 0 = Inr (s1, ev)"
    and rest: "seed rnd is (s1\<lparr>events := heappush (events s1) ev\<rparr>) = Inr s'"
    by (auto split: sum.splits)
  let ?s2 = "s1\<lparr>events := heappush (events s1) ev\<rparr>"
  have i: "i < length (philosophers s)" using Cons.prems(2) by simp
  note refs = wired_refs(1,2)[OF Cons.prems(1) i]
  have unt: "untouched s s1 i" using request_untouched[OF req refs i] by simp
  have r0: "0 \<le> rnd (draws s)" using Cons.prems(5) by simp
  have p1: "timedP 0 s1" and ev: "0 \<le> time ev"
    using request_timedP[OF Cons.prems(4) i refs r0 req] by simp_all
  have same: "events s1 = events s" "length (philosophers s1) = length (philosophers s)"
    using unt by (simp_all add: untouched_def)
  have q2: "timedQ 0 ?s2"
    using Cons.prems(3) ev same by (intro push_timedQ) (simp_all add: timedQ_def)
  have w2: "wired ?s2" using untouched_wired[OF unt Cons.prems(1)] by (simp add: wired_def)
  show ?case
    by (rule Cons.IH[OF w2 _ q2 _ Cons.prems(5) rest]) (use Cons.prems(2) same p1 in simp_all)
qed

lemma init_timed:
  assumes "0 < m" "\<forall>x \<in> set ls. 0 < x"
  shows "timedQ 0 (Simulation_init m T' ls)" and "timedP 0 (Simulation_init m T' ls)"
proof -
  show "timedQ 0 (Simulation_init m T' ls)" by (simp add: timedQ_def heap_inv_def)
  have "0 < mi p \<and> 0 < lambda_i p \<and> requests p = [] \<and> started_at p = 0 \<and> eating_time p = 0"
    if "p \<in> set (philosophers (Simulation_init m T' ls))" for p
  proof -
    from that obtain i where i: "i < length ls" "p = philosophers (Simulation_init m T' ls) ! i"
      by (auto simp: in_set_conv_nth)
    then show ?thesis using assms by (simp add: Simulation_init_nth)
  qed
  then show "timedP 0 (Simulation_init m T' ls)" unfolding timedP_def by simp
qed

lemma seed_start_timed:
  assumes "0 < m" "\<forall>x \<in> set ls. 0 < x" "\<forall>k. 0 \<le> rnd k"
    and "seed rnd [0..<length ls] (Simulation_init m T' ls) = Inr s0"
  shows "timedQ 0 s0" and "timedP 0 s0"
proof -
  have w: "wired (Simulation_init m T' ls)" using init_inv by (simp add: inv_def core_def)
  have "timedQ 0 s0 \<and> timedP 0 s0"
    by (rule seed_timed[OF w _ init_timed[OF assms(1,2)] assms(3,4)]) simp
  then show "timedQ 0 s0" and "timedP 0 s0" by simp_all
qed

lemma exec_timed:
  assumes "exec rnd c tr c'" "inv (snd c)" "timedQ (fst c) (snd c)" "timedP (fst c) (snd c)"
    and "\<forall>k. 0 \<le> rnd k"
  shows "timedQ (fst c') (snd c') \<and> timedP (fst c') (snd c') \<and> fst c \<le> fst c' \<and>
         sorted (map (\<lambda>x. time (fst x)) tr) \<and> (\<forall>x \<in> set tr. time (fst x) \<le> fst c')"
  using assms
proof (induction rule: exec.induct)
  case (exec_start c)
  then show ?case by simp
next
  case (exec_step c tr t s event s')
  note IH = exec_step.IH[OF exec_step.prems]
  have i: "inv s" using exec_inv[OF exec_step.hyps(1) exec_step.prems(1)] by simp
  have qt: "timedQ t s" and pt: "timedP t s" using IH by simp_all
  have step: "t \<le> time event \<and> timedQ (time event) s' \<and> timedP (time event) s'"
    by (rule loop_body_timed[OF i qt pt exec_step.prems(4) exec_step.hyps(3)])
  have "sorted (map (\<lambda>x. time (fst x)) (tr @ [(event, s)]))"
    using IH step by (auto simp: sorted_append)
  moreover have "\<forall>x \<in> set (tr @ [(event, s)]). time (fst x) \<le> time event"
    using IH step by auto
  ultimately show ?case using IH step by simp
qed

section \<open>What one iteration does to the philosophers\<close>

lemma loop_body_effect:
  assumes inv: "inv s" and res: "loop_body rnd s = Inr (e, s')"
  shows "philosopher e < length (philosophers s)"
    and "philosophers s' = (philosophers s)[philosopher e := philosophers s' ! philosopher e]"
    and "eating s (philosopher e) \<longleftrightarrow> type e = FINISH"
    and "\<And>j. j \<noteq> philosopher e \<Longrightarrow> eating s' j = eating s j"
    and "type e = REQUEST \<Longrightarrow>
           requests (philosophers s' ! philosopher e)
             = requests (philosophers s ! philosopher e) @ [time e] \<and>
           eating_time (philosophers s' ! philosopher e)
             = eating_time (philosophers s ! philosopher e) \<and>
           (if eating s' (philosopher e)
            then started_at (philosophers s' ! philosopher e) = time e
            else started_at (philosophers s' ! philosopher e)
                   = started_at (philosophers s ! philosopher e))"
    and "type e = FINISH \<Longrightarrow>
           requests (philosophers s' ! philosopher e)
             = requests (philosophers s ! philosopher e) \<and>
           eating_time (philosophers s' ! philosopher e)
             = eating_time (philosophers s ! philosopher e)
               + (time e - started_at (philosophers s ! philosopher e)) \<and>
           started_at (philosophers s' ! philosopher e)
             = started_at (philosophers s ! philosopher e) \<and>
           \<not> eating s' (philosopher e)"
proof -
  from res obtain h s1 nxt where step: "heappop (events s) = Inr (e, h)"
    "(case type e of
        REQUEST \<Rightarrow> request rnd (s\<lparr>events := h\<rparr>) (philosopher e) (time e)
      | FINISH \<Rightarrow> finish rnd (s\<lparr>events := h\<rparr>) (philosopher e) (time e)) = Inr (s1, nxt)"
    "s' = s1\<lparr>events := heappush (events s1) nxt\<rparr>"
    by (rule loop_body_cases)
  define i where "i = philosopher e"
  define sp where "sp = s\<lparr>events := h\<rparr>"
  have q: "queue_ok s" and w: "wired s" using inv by (simp_all add: inv_def core_def)
  note ms = heappop_Inr(2)[OF step(1)]
  note pop = pop_queue[OF ms q[unfolded queue_ok_def, THEN conjunct1]]
  have fresh: "\<And>x. x \<in> set h \<Longrightarrow> philosopher x \<noteq> i" using pop(2) by (auto simp: i_def image_iff)
  show i: "philosopher e < length (philosophers s)"
    using q pop(3) by (simp add: queue_ok_def)
  then have ip: "i < length (philosophers sp)" by (simp add: sp_def i_def)
  have wp: "wired sp" using w by (simp add: wired_def sp_def)
  note refs = wired_refs(1,2)[OF wp ip]
  have handler: "untouched sp s1 i \<and> philosopher nxt = i"
  proof (cases "type e")
    case REQUEST
    then show ?thesis
      using request_untouched[OF _ refs ip] step(2) by (simp add: sp_def i_def)
  next
    case FINISH
    then show ?thesis
      using finish_untouched[OF _ refs ip] step(2) by (simp add: sp_def i_def)
  qed
  then have unt: "untouched sp s1 i" and nx: "philosopher nxt = i" by simp_all
  have ev1: "events s1 = h" and len1: "length (philosophers s1) = length (philosophers s)"
    and other: "\<And>j. j \<noteq> i \<Longrightarrow> philosophers s1 ! j = philosophers s ! j"
    using unt by (simp_all add: untouched_def sp_def)
  have ps': "philosophers s' = philosophers s1" using step(3) by simp
  show "philosophers s' = (philosophers s)[philosopher e := philosophers s' ! philosopher e]"
    unfolding ps' i_def[symmetric]
  proof (rule nth_equalityI)
    show "length (philosophers s1) = length ((philosophers s)[i := philosophers s1 ! i])"
      using len1 by simp
    fix k assume "k < length (philosophers s1)"
    then show "philosophers s1 ! k = (philosophers s)[i := philosophers s1 ! i] ! k"
      using len1 other[of k] by (cases "k = i") simp_all
  qed
  have set': "set (events s') = insert nxt (set h)" using step(3) ev1 by simp
  show eat_i: "eating s (philosopher e) \<longleftrightarrow> type e = FINISH"
    using pop(3) fresh by (auto simp: eating_iff i_def)
  show "eating s' j = eating s j" if "j \<noteq> philosopher e" for j
    using that set' pop(3) nx by (auto simp: eating_iff i_def)
  have eat': "eating s' i \<longleftrightarrow> type nxt = FINISH"
    using set' fresh nx by (auto simp: eating_iff)
  have pi: "philosophers sp ! i = philosophers s ! i" "draws sp = draws s"
    by (simp_all add: sp_def)
  show "requests (philosophers s' ! philosopher e)
             = requests (philosophers s ! philosopher e) @ [time e] \<and>
           eating_time (philosophers s' ! philosopher e)
             = eating_time (philosophers s ! philosopher e) \<and>
           (if eating s' (philosopher e)
            then started_at (philosophers s' ! philosopher e) = time e
            else started_at (philosophers s' ! philosopher e)
                   = started_at (philosophers s ! philosopher e))"
    if "type e = REQUEST"
  proof -
    have req: "request rnd sp i (time e) = Inr (s1, nxt)"
      using step(2) that by (simp add: sp_def i_def)
    from req refs show ?thesis
    proof (cases rule: request_cases)
      case acquire
      then show ?thesis using ip eat' ps' pi by (simp add: i_def[symmetric])
    next
      case retry
      then show ?thesis using ip eat' ps' pi by (simp add: i_def[symmetric])
    qed
  qed
  show "requests (philosophers s' ! philosopher e)
             = requests (philosophers s ! philosopher e) \<and>
           eating_time (philosophers s' ! philosopher e)
             = eating_time (philosophers s ! philosopher e)
               + (time e - started_at (philosophers s ! philosopher e)) \<and>
           started_at (philosophers s' ! philosopher e)
             = started_at (philosophers s ! philosopher e) \<and>
           \<not> eating s' (philosopher e)"
    if "type e = FINISH"
  proof -
    have fin: "finish rnd sp i (time e) = Inr (s1, nxt)"
      using step(2) that by (simp add: sp_def i_def)
    from fin refs show ?thesis
    proof (cases rule: finish_cases)
      case finish
      then show ?thesis using ip eat' ps' pi by (simp add: i_def[symmetric])
    qed
  qed
qed

lemma sum_list_map_update:
  fixes f :: "'a \<Rightarrow> real"
  shows "i < length xs \<Longrightarrow> sum_list (map f (xs[i := y])) = sum_list (map f xs) - f (xs ! i) + f y"
proof (induction xs arbitrary: i)
  case Nil
  then show ?case by simp
next
  case (Cons x xs)
  then show ?case by (cases i) simp_all
qed

lemma sum_list_zero:
  fixes f :: "'a \<Rightarrow> real"
  shows "\<forall>x \<in> set xs. f x = 0 \<Longrightarrow> sum_list (map f xs) = 0"
  by (induction xs) simp_all

lemma loop_body_busy:
  assumes inv: "inv s" and res: "loop_body rnd s = Inr (e, s')"
  shows "busy_total s' = busy_total s +
           (if type e = FINISH then time e - started_at (philosophers s ! philosopher e) else 0)"
proof -
  note eff = loop_body_effect[OF inv res]
  have "busy_total s' = sum_list (map eating_time
          ((philosophers s)[philosopher e := philosophers s' ! philosopher e]))"
    unfolding busy_total_def using eff(2) by simp
  also have "\<dots> = busy_total s - eating_time (philosophers s ! philosopher e)
                   + eating_time (philosophers s' ! philosopher e)"
    unfolding busy_total_def by (rule sum_list_map_update[OF eff(1)])
  finally show ?thesis
    using eff(5,6) by (cases "type e") simp_all
qed

lemma finish_count_snoc:
  "finish_count (tr @ [x]) = finish_count tr + (if type (fst x) = FINISH then 1 else 0)"
  by (simp add: finish_count_def)

lemma request_count_snoc:
  "request_count i (tr @ [x]) =
     request_count i tr + (if philosopher (fst x) = i \<and> type (fst x) = REQUEST then 1 else 0)"
  by (simp add: request_count_def)

lemma exec_busy:
  assumes "exec rnd c tr c'" "inv (snd c)" "timedQ (fst c) (snd c)" "timedP (fst c) (snd c)"
    and "\<forall>k. 0 \<le> rnd k"
  shows "busy_total (snd c') \<le> busy_total (snd c) + real (finish_count tr) * fst c'"
  using assms
proof (induction rule: exec.induct)
  case (exec_start c)
  then show ?case by (simp add: finish_count_def)
next
  case (exec_step c tr t s event s')
  note IH = exec_step.IH[OF exec_step.prems]
  have i: "inv s" using exec_inv[OF exec_step.hyps(1) exec_step.prems(1)] by simp
  note tm = exec_timed[OF exec_step.hyps(1) exec_step.prems]
  have qt: "timedQ t s" and pt: "timedP t s" using tm by simp_all
  have te: "t \<le> time event"
    using loop_body_timed[OF i qt pt exec_step.prems(4) exec_step.hyps(3)] by simp
  have idx: "philosopher event < length (philosophers s)"
    using loop_body_effect(1)[OF i exec_step.hyps(3)] .
  then have "philosophers s ! philosopher event \<in> set (philosophers s)" by simp
  then have st: "0 \<le> started_at (philosophers s ! philosopher event)"
    using pt unfolding timedP_def by blast
  have k: "real (finish_count tr) * t \<le> real (finish_count tr) * time event"
    using te by (intro mult_left_mono) simp_all
  have t0: "0 \<le> time event" using pt te unfolding timedP_def by linarith
  have busy: "busy_total s' = busy_total s +
      (if type event = FINISH then time event - started_at (philosophers s ! philosopher event)
       else 0)"
    by (rule loop_body_busy[OF i exec_step.hyps(3)])
  show ?case
  proof (cases "type event = FINISH")
    case True
    have "busy_total s' \<le> busy_total (snd c) + real (finish_count tr) * time event + time event"
      using busy True IH k st by simp
    then show ?thesis using True by (simp add: finish_count_snoc algebra_simps)
  next
    case False
    have "busy_total s' \<le> busy_total (snd c) + real (finish_count tr) * time event"
      using busy False IH k by simp
    then show ?thesis using False by (simp add: finish_count_snoc)
  qed
qed

lemma exec_requests:
  assumes "exec rnd c tr c'" "inv (snd c)" "i < length (philosophers (snd c))"
  shows "length (requests (philosophers (snd c') ! i))
           = length (requests (philosophers (snd c) ! i)) + request_count i tr"
  using assms
proof (induction rule: exec.induct)
  case (exec_start c)
  then show ?case by (simp add: request_count_def)
next
  case (exec_step c tr t s event s')
  note IH = exec_step.IH[OF exec_step.prems]
  have inv: "inv s" using exec_inv[OF exec_step.hyps(1) exec_step.prems(1)] by simp
  note eff = loop_body_effect[OF inv exec_step.hyps(3)]
  show ?case
  proof (cases "philosopher event = i")
    case True
    then show ?thesis
      using eff(5,6) IH by (cases "type event") (simp_all add: request_count_snoc)
  next
    case False
    then have "philosophers s' ! i = philosophers s ! i"
      by (subst eff(2)) simp
    then show ?thesis using False IH by (simp add: request_count_snoc)
  qed
qed

lemma exec_intervals:
  assumes "exec rnd c tr c'" "inv (snd c)" "timedQ (fst c) (snd c)" "timedP (fst c) (snd c)"
    and "\<forall>k. 0 \<le> rnd k"
  shows "(\<forall>x \<in> set tr. type (fst x) = FINISH \<longrightarrow>
            fst (busy_interval x) \<le> snd (busy_interval x) \<and>
            (eating (snd c') (philosopher (fst x)) \<longrightarrow>
               time (fst x) \<le> started_at (philosophers (snd c') ! philosopher (fst x)))) \<and>
         (\<forall>a b. a < b \<and> b < length tr \<and> type (fst (tr ! a)) = FINISH \<and>
                type (fst (tr ! b)) = FINISH \<and>
                philosopher (fst (tr ! a)) = philosopher (fst (tr ! b)) \<longrightarrow>
                snd (busy_interval (tr ! a)) \<le> fst (busy_interval (tr ! b)))"
  using assms
proof (induction rule: exec.induct)
  case (exec_start c)
  then show ?case by simp
next
  case (exec_step c tr t s event s')
  note IH = exec_step.IH[OF exec_step.prems]
  have IH1: "\<And>x. x \<in> set tr \<Longrightarrow> type (fst x) = FINISH \<Longrightarrow>
            fst (busy_interval x) \<le> snd (busy_interval x) \<and>
            (eating s (philosopher (fst x)) \<longrightarrow>
               time (fst x) \<le> started_at (philosophers s ! philosopher (fst x)))"
    using IH by simp
  have IH2: "\<And>a b. a < b \<Longrightarrow> b < length tr \<Longrightarrow> type (fst (tr ! a)) = FINISH \<Longrightarrow>
                type (fst (tr ! b)) = FINISH \<Longrightarrow>
                philosopher (fst (tr ! a)) = philosopher (fst (tr ! b)) \<Longrightarrow>
                snd (busy_interval (tr ! a)) \<le> fst (busy_interval (tr ! b))"
    using IH by blast
  have inv: "inv s" using exec_inv[OF exec_step.hyps(1) exec_step.prems(1)] by simp
  note tm = exec_timed[OF exec_step.hyps(1) exec_step.prems]
  have qt: "timedQ t s" and pt: "timedP t s"
    and past: "\<And>x. x \<in> set tr \<Longrightarrow> time (fst x) \<le> t"
    using tm by simp_all
  have te: "t \<le> time event"
    using loop_body_timed[OF inv qt pt exec_step.prems(4) exec_step.hyps(3)] by simp
  note eff = loop_body_effect[OF inv exec_step.hyps(3)]
  have "philosophers s ! philosopher event \<in> set (philosophers s)" using eff(1) by simp
  then have st: "started_at (philosophers s ! philosopher event) \<le> t"
    using pt unfolding timedP_def by blast
  let ?tr = "tr @ [(event, s)]"
  have new: "fst (busy_interval (event, s)) \<le> snd (busy_interval (event, s)) \<and>
             (eating s' (philosopher event) \<longrightarrow>
               time event \<le> started_at (philosophers s' ! philosopher event))"
    if "type event = FINISH"
    using that st te eff(6) by (simp add: busy_interval_def)
  have old: "fst (busy_interval x) \<le> snd (busy_interval x) \<and>
             (eating s' (philosopher (fst x)) \<longrightarrow>
               time (fst x) \<le> started_at (philosophers s' ! philosopher (fst x)))"
    if x: "x \<in> set tr" "type (fst x) = FINISH" for x
  proof (cases "philosopher (fst x) = philosopher event")
    case False
    then have "philosophers s' ! philosopher (fst x) = philosophers s ! philosopher (fst x)"
      by (subst eff(2)) simp
    then show ?thesis using IH1[OF x] eff(4)[OF False] by simp
  next
    case True
    have "time (fst x) \<le> started_at (philosophers s' ! philosopher event)"
      if "eating s' (philosopher event)"
    proof (cases "type event")
      case REQUEST
      then have "started_at (philosophers s' ! philosopher event) = time event"
        using eff(5) that by simp
      then show ?thesis using past[OF x(1)] te by simp
    next
      case FINISH
      then show ?thesis using eff(6) that by simp
    qed
    then show ?thesis using IH1[OF x] True by simp
  qed
  have 1: "\<forall>x \<in> set ?tr. type (fst x) = FINISH \<longrightarrow>
            fst (busy_interval x) \<le> snd (busy_interval x) \<and>
            (eating s' (philosopher (fst x)) \<longrightarrow>
               time (fst x) \<le> started_at (philosophers s' ! philosopher (fst x)))"
    using new old by auto
  have 2: "snd (busy_interval (?tr ! a)) \<le> fst (busy_interval (?tr ! b))"
    if ab: "a < b" "b < length ?tr" "type (fst (?tr ! a)) = FINISH"
      "type (fst (?tr ! b)) = FINISH"
      "philosopher (fst (?tr ! a)) = philosopher (fst (?tr ! b))" for a b
  proof (cases "b < length tr")
    case True
    then show ?thesis using IH2[of a b] ab by (simp add: nth_append)
  next
    case False
    then have b: "b = length tr" using ab(2) by simp
    then have a: "a < length tr" using ab(1) by simp
    have xa: "tr ! a \<in> set tr" using a by simp
    have fa: "type (fst (tr ! a)) = FINISH" using ab(3) a by (simp add: nth_append)
    have fe: "type event = FINISH" using ab(4) b by simp
    have same: "philosopher (fst (tr ! a)) = philosopher event"
      using ab(5) a b by (simp add: nth_append)
    have "eating s (philosopher event)" using eff(3) fe by simp
    then have "time (fst (tr ! a)) \<le> started_at (philosophers s ! philosopher event)"
      using IH1[OF xa fa] same by simp
    then show ?thesis using a b by (simp add: nth_append busy_interval_def)
  qed
  show ?case using 1 2 by simp
qed

section \<open>The state after the seeding\<close>

lemma seed_philosophers:
  assumes "wired s" "distinct is" "\<forall>i \<in> set is. i < length (philosophers s)"
    and "seed rnd is s = Inr s'"
  shows "(\<forall>j < length (philosophers s).
            requests (philosophers s' ! j)
              = requests (philosophers s ! j) @ (if j \<in> set is then [0] else []) \<and>
            eating_time (philosophers s' ! j) = eating_time (philosophers s ! j)) \<and>
         length (philosophers s') = length (philosophers s)"
  using assms
proof (induction "is" arbitrary: s)
  case Nil
  then show ?case by simp
next
  case (Cons i "is")
  from Cons.prems(4) obtain s1 ev where
    req: "request rnd s i 0 = Inr (s1, ev)"
    and rest: "seed rnd is (s1\<lparr>events := heappush (events s1) ev\<rparr>) = Inr s'"
    by (auto split: sum.splits)
  let ?s2 = "s1\<lparr>events := heappush (events s1) ev\<rparr>"
  have i: "i < length (philosophers s)" using Cons.prems(3) by simp
  note refs = wired_refs(1,2)[OF Cons.prems(1) i]
  have unt: "untouched s s1 i" using request_untouched[OF req refs i] by simp
  have len: "length (philosophers s1) = length (philosophers s)"
    and other: "\<And>j. j \<noteq> i \<Longrightarrow> philosophers s1 ! j = philosophers s ! j"
    using unt by (simp_all add: untouched_def)
  have at_i: "requests (philosophers s1 ! i) = requests (philosophers s ! i) @ [0] \<and>
              eating_time (philosophers s1 ! i) = eating_time (philosophers s ! i)"
    using req refs
  proof (cases rule: request_cases)
    case acquire
    then show ?thesis using i by simp
  next
    case retry
    then show ?thesis using i by simp
  qed
  have w2: "wired ?s2" using untouched_wired[OF unt Cons.prems(1)] by (simp add: wired_def)
  have IH: "(\<forall>j < length (philosophers ?s2).
            requests (philosophers s' ! j)
              = requests (philosophers ?s2 ! j) @ (if j \<in> set is then [0] else []) \<and>
            eating_time (philosophers s' ! j) = eating_time (philosophers ?s2 ! j)) \<and>
         length (philosophers s') = length (philosophers ?s2)"
    by (rule Cons.IH[OF w2 _ _ rest]) (use Cons.prems(2,3) len in simp_all)
  have ni: "i \<notin> set is" using Cons.prems(2) by simp
  have "requests (philosophers s' ! j)
              = requests (philosophers s ! j) @ (if j \<in> set (i # is) then [0] else []) \<and>
            eating_time (philosophers s' ! j) = eating_time (philosophers s ! j)"
    if j: "j < length (philosophers s)" for j
  proof (cases "j = i")
    case True
    then show ?thesis using IH j len at_i ni by simp
  next
    case False
    then show ?thesis using IH j len other[OF False] by simp
  qed
  then show ?case using IH len by simp
qed

lemma seed_start_philosophers:
  assumes "seed rnd [0..<length ls] (Simulation_init m T' ls) = Inr s0"
  shows "\<And>j. j < length ls \<Longrightarrow> requests (philosophers s0 ! j) = [0]"
    and "busy_total s0 = 0"
proof -
  have w: "wired (Simulation_init m T' ls)" using init_inv by (simp add: inv_def core_def)
  have r: "(\<forall>j < length ls.
            requests (philosophers s0 ! j) = [0] \<and> eating_time (philosophers s0 ! j) = 0) \<and>
           length (philosophers s0) = length ls"
    using seed_philosophers[OF w _ _ assms] by (simp add: Simulation_init_nth)
  then show "requests (philosophers s0 ! j) = [0]" if "j < length ls" for j
    using that by simp
  have "eating_time p = 0" if "p \<in> set (philosophers s0)" for p
    using that r by (auto simp: in_set_conv_nth)
  then have "sum_list (map eating_time (philosophers s0)) = 0"
    by (intro sum_list_zero) simp
  then show "busy_total s0 = 0" by (simp add: busy_total_def)
qed

lemma zero_mi_run:
  assumes "ls \<noteq> []"
  shows "Simulation_run rnd (Simulation_init 0 T' ls) = Some (Inl ZeroDivisionError)"
proof -
  let ?s = "Simulation_init 0 T' ls"
  have n: "0 < length ls" using assms by simp
  have p0: "philosophers ?s ! 0 =
           \<lparr>mi = 0, lambda_i = ls ! 0, left_chopstick = Some 0,
            right_chopstick = Some ((0 + 1) mod length ls),
            failed_attempts = 0, eating_time = 0, started_at = 0, requests = []\<rparr>"
    by (rule Simulation_init_nth(1)[OF n])
  have m: "(0 + 1) mod length ls < length ls" using n by (rule mod_less_divisor)
  have free: "is_free (chopsticks ?s ! 0)"
    "is_free (chopsticks ?s ! ((0 + 1) mod length ls))"
    using Simulation_init_nth(2)[OF n, of 0 T'] Simulation_init_nth(2)[OF m, of 0 T']
    by simp_all
  have "request rnd ?s 0 0 = Inl ZeroDivisionError"
    by (rule request_acquire_error[OF _ _ free]) (simp_all add: p0)
  then have "seed rnd [0..<length (philosophers ?s)] ?s = Inl ZeroDivisionError"
    using n by (simp add: upt_rec)
  then show ?thesis by (simp add: Simulation_run_def)
qed

section \<open>Progress with positive rates\<close>

lemma positive_rates:
  assumes "timedP t s" "i < length (philosophers s)"
  shows "mi (philosophers s ! i) \<noteq> 0" and "lambda_i (philosophers s ! i) \<noteq> 0"
proof -
  have "philosophers s ! i \<in> set (philosophers s)" using assms(2) by simp
  then have "0 < mi (philosophers s ! i) \<and> 0 < lambda_i (philosophers s ! i)"
    using assms(1) unfolding timedP_def by blast
  then show "mi (philosophers s ! i) \<noteq> 0" and "lambda_i (philosophers s ! i) \<noteq> 0"
    by simp_all
qed

lemma request_succeeds:
  assumes "wired s" "timedP t s" "i < length (philosophers s)"
  shows "\<exists>s' ev. request rnd s i u = Inr (s', ev)"
proof -
  note refs = wired_refs(1,2)[OF assms(1,3)]
  note nz = positive_rates[OF assms(2,3)]
  show ?thesis
  proof (cases "is_free (chopsticks s ! i) \<and>
                is_free (chopsticks s ! ((i + 1) mod length (philosophers s)))")
    case True
    then show ?thesis using request_acquire[OF refs _ _ nz(1), of rnd u] by simp
  next
    case False
    then show ?thesis using request_retry[OF refs False nz(2), of rnd u] by simp
  qed
qed

lemma finish_succeeds:
  assumes "wired s" "timedP t s" "i < length (philosophers s)"
  shows "\<exists>s' ev. finish rnd s i u = Inr (s', ev)"
  using finish_ok[OF wired_refs(1,2)[OF assms(1,3)] positive_rates(2)[OF assms(2,3)], of rnd u]
  by simp

lemma loop_body_succeeds:
  assumes inv: "inv s" and p: "timedP t s" and ne: "events s \<noteq> []"
  shows "\<exists>e s'. loop_body rnd s = Inr (e, s')"
proof -
  obtain e h where pop: "heappop (events s) = Inr (e, h)"
    using heappop_nonempty[OF ne] by blast
  define sp where "sp = s\<lparr>events := h\<rparr>"
  have q: "queue_ok s" and w: "wired s" using inv by (simp_all add: inv_def core_def)
  have "e \<in> set (events s)"
    using pop_queue(3)[OF heappop_Inr(2)[OF pop]] q by (simp add: queue_ok_def)
  then have ip: "philosopher e < length (philosophers sp)"
    using q by (simp add: queue_ok_def sp_def)
  have wp: "wired sp" using w by (simp add: wired_def sp_def)
  have pp: "timedP t sp" using p by (simp add: sp_def)
  obtain s1 nxt where
    "(case type e of
        REQUEST \<Rightarrow> request rnd sp (philosopher e) (time e)
      | FINISH \<Rightarrow> finish rnd sp (philosopher e) (time e)) = Inr (s1, nxt)"
    using request_succeeds[OF wp pp ip, of rnd "time e"]
      finish_succeeds[OF wp pp ip, of rnd "time e"]
    by (cases "type e") auto
  then show ?thesis using pop unfolding sp_def by (simp add: loop_body_def Let_def)
qed

lemma seed_succeeds_gen:
  assumes "wired s" "\<forall>i \<in> set is. i < length (philosophers s)"
    and "timedP 0 s" "\<forall>k. 0 \<le> rnd k"
  shows "\<exists>s'. seed rnd is s = Inr s'"
  using assms
proof (induction "is" arbitrary: s)
  case Nil
  then show ?case by simp
next
  case (Cons i "is")
  have i: "i < length (philosophers s)" using Cons.prems(2) by simp
  obtain s1 ev where req: "request rnd s i 0 = Inr (s1, ev)"
    using request_succeeds[OF Cons.prems(1,3) i] by blast
  let ?s2 = "s1\<lparr>events := heappush (events s1) ev\<rparr>"
  note refs = wired_refs(1,2)[OF Cons.prems(1) i]
  have unt: "untouched s s1 i" using request_untouched[OF req refs i] by simp
  have r0: "0 \<le> rnd (draws s)" using Cons.prems(4) by simp
  have p1: "timedP 0 s1" using request_timedP[OF Cons.prems(3) i refs r0 req] by simp
  have len: "length (philosophers s1) = length (philosophers s)"
    using unt by (simp add: untouched_def)
  have w2: "wired ?s2" using untouched_wired[OF unt Cons.prems(1)] by (simp add: wired_def)
  have "\<exists>s'. seed rnd is ?s2 = Inr s'"
    by (rule Cons.IH[OF w2 _ _ Cons.prems(4)]) (use Cons.prems(2) len p1 in simp_all)
  then show ?case using req by simp
qed

lemma seed_succeeds:
  assumes "0 < m" "\<forall>x \<in> set ls. 0 < x" "\<forall>k. 0 \<le> rnd k"
  shows "\<exists>s0. seed rnd [0..<length ls] (Simulation_init m T' ls) = Inr s0"
proof -
  have w: "wired (Simulation_init m T' ls)" using init_inv by (simp add: inv_def core_def)
  show ?thesis
    by (rule seed_succeeds_gen[OF w _ init_timed(2)[OF assms(1,2)] assms(3)]) simp
qed

lemma seed_prefix_inv:
  assumes "k \<le> length ls" "seed rnd [0..<k] (Simulation_init m T' ls) = Inr s1"
  shows "inv s1"
  using seed_inv[OF init_inv _ _ _ assms(2)] assms(1) by simp

lemma inv_exclusion:
  assumes "inv s"
  shows "exclusion s"
proof -
  have w: "wired s"
    and free: "\<forall>c<length (chopsticks s). is_free (chopsticks s ! c) \<longleftrightarrow>
                 \<not> (\<exists>i<length (philosophers s). eating s i \<and> uses s i c)"
    and excl: "\<forall>i<length (philosophers s). \<forall>j<length (philosophers s). \<forall>c.
                 eating s i \<and> eating s j \<and> uses s i c \<and> uses s j c \<longrightarrow> i = j"
    using assms by (simp_all add: inv_def core_def)
  have 1: "\<forall>c i j. holds s i c \<and> holds s j c \<longrightarrow> i = j"
    using excl unfolding holds_def by blast
  have 2: "\<forall>c < length (chopsticks s). is_free (chopsticks s ! c) \<longleftrightarrow> \<not> (\<exists>i. holds s i c)"
    using free unfolding holds_def by blast
  have 3: "\<exists>l r.
        left_chopstick (philosophers s ! i) = Some l \<and>
        right_chopstick (philosophers s ! i) = Some r \<and>
        l < length (chopsticks s) \<and> r < length (chopsticks s) \<and>
        (if eating s i
         then holds s i l \<and> holds s i r \<and>
              \<not> is_free (chopsticks s ! l) \<and> \<not> is_free (chopsticks s ! r)
         else \<not> holds s i l \<and> \<not> holds s i r)"
    if i: "i < length (philosophers s)" for i
  proof -
    note refs = wired_refs[OF w i]
    have u: "uses s i i" "uses s i ((i + 1) mod length (philosophers s))"
      using refs(1,2) by (simp_all add: uses_def)
    have "holds s i i \<and> holds s i ((i + 1) mod length (philosophers s)) \<and>
          \<not> is_free (chopsticks s ! i) \<and>
          \<not> is_free (chopsticks s ! ((i + 1) mod length (philosophers s)))"
      if "eating s i"
      using that u i refs(3,4) free unfolding holds_def by blast
    moreover have "\<not> holds s i i \<and> \<not> holds s i ((i + 1) mod length (philosophers s))"
      if "\<not> eating s i"
      using that by (simp add: holds_def)
    ultimately show ?thesis using refs by auto
  qed
  show ?thesis unfolding exclusion_def using 1 2 3 by blast
qed

section \<open>Claims about the handlers and the construction\<close>

text \<open>
  C1. A philosopher handed a request at time \<open>t\<close> first appends \<open>t\<close> to its list of
  requests. If both its chopsticks are free it picks both up, sets \<open>started_at\<close> to \<open>t\<close>
  and returns one FINISH event for itself at \<open>t + d\<close>, where \<open>d \<ge> 0\<close> is drawn with the
  service rate \<open>mi\<close>. Otherwise it adds 1 to \<open>failed_attempts\<close>, picks nothing up and
  returns one REQUEST event for itself at \<open>t + d\<close>, where \<open>d \<ge> 0\<close> is drawn with the
  request rate \<open>lambda_i\<close>. The rates are positive, as the data model says, and the random
  source yields a value that is not negative.
\<close>

theorem C1_request:
  assumes refs: "left_chopstick (philosophers s ! i) = Some l"
      "right_chopstick (philosophers s ! i) = Some r"
    and bounds: "i < length (philosophers s)" "l < length (chopsticks s)"
      "r < length (chopsticks s)"
    and rates: "0 < mi (philosophers s ! i)" "0 < lambda_i (philosophers s ! i)"
    and rnd: "0 \<le> rnd (draws s)"
  shows "\<exists>s' ev d. request rnd s i t = Inr (s', ev) \<and>
     requests (philosophers s' ! i) = requests (philosophers s ! i) @ [t] \<and>
     philosopher ev = i \<and> time ev = t + d \<and> 0 \<le> d \<and>
     (if is_free (chopsticks s ! l) \<and> is_free (chopsticks s ! r) then
        \<not> is_free (chopsticks s' ! l) \<and> \<not> is_free (chopsticks s' ! r) \<and>
        (\<forall>c. c \<noteq> l \<and> c \<noteq> r \<longrightarrow> chopsticks s' ! c = chopsticks s ! c) \<and>
        started_at (philosophers s' ! i) = t \<and>
        failed_attempts (philosophers s' ! i) = failed_attempts (philosophers s ! i) \<and>
        type ev = FINISH \<and> expovariate rnd (draws s) (mi (philosophers s ! i)) = Inr d
      else
        failed_attempts (philosophers s' ! i) = failed_attempts (philosophers s ! i) + 1 \<and>
        chopsticks s' = chopsticks s \<and>
        started_at (philosophers s' ! i) = started_at (philosophers s ! i) \<and>
        type ev = REQUEST \<and> expovariate rnd (draws s) (lambda_i (philosophers s ! i)) = Inr d)"
proof (cases "is_free (chopsticks s ! l) \<and> is_free (chopsticks s ! r)")
  case True
  have nz: "mi (philosophers s ! i) \<noteq> 0" using rates by simp
  have d: "0 \<le> rnd (draws s) / mi (philosophers s ! i)" using rates rnd by simp
  have "request rnd s i t =
    Inr (s\<lparr>philosophers := (philosophers s)[i := (philosophers s ! i)
               \<lparr>requests := requests (philosophers s ! i) @ [t], started_at := t\<rparr>],
            chopsticks := (chopsticks s)[l := pick_up (chopsticks s ! l),
               r := pick_up ((chopsticks s)[l := pick_up (chopsticks s ! l)] ! r)],
            draws := Suc (draws s)\<rparr>,
         \<lparr>philosopher = i, time = t + rnd (draws s) / mi (philosophers s ! i), type = FINISH\<rparr>)"
    using True nz by (intro request_acquire[OF refs]) simp_all
  then show ?thesis
    using True bounds nz d
    by (simp add: expovariate_def pick_up_def nth_list_update)
next
  case False
  have nz: "lambda_i (philosophers s ! i) \<noteq> 0" using rates by simp
  have d: "0 \<le> rnd (draws s) / lambda_i (philosophers s ! i)" using rates rnd by simp
  have "request rnd s i t =
    Inr (s\<lparr>philosophers := (philosophers s)[i := (philosophers s ! i)
               \<lparr>requests := requests (philosophers s ! i) @ [t],
                failed_attempts := failed_attempts (philosophers s ! i) + 1\<rparr>],
            draws := Suc (draws s)\<rparr>,
         \<lparr>philosopher = i, time = t + rnd (draws s) / lambda_i (philosophers s ! i), type = REQUEST\<rparr>)"
    by (rule request_retry[OF refs False nz])
  then show ?thesis
    using False bounds nz d by (simp add: expovariate_def)
qed

theorem C1_request_witness:
  "left_chopstick (philosophers sim_ex ! 0) = Some 0 \<and>
   right_chopstick (philosophers sim_ex ! 0) = Some 1 \<and>
   0 < length (philosophers sim_ex) \<and> 0 < length (chopsticks sim_ex) \<and>
   1 < length (chopsticks sim_ex) \<and>
   0 < mi (philosophers sim_ex ! 0) \<and> 0 < lambda_i (philosophers sim_ex ! 0) \<and>
   0 \<le> rnd_ex (draws sim_ex) \<and>
   (\<exists>s' ev. request rnd_ex sim_ex 0 0 = Inr (s', ev) \<and>
      requests (philosophers s' ! 0) = [0] \<and> type ev = FINISH \<and> time ev = 3 \<and>
      \<not> is_free (chopsticks s' ! 0) \<and> \<not> is_free (chopsticks s' ! 1))"
proof -
  have h: "left_chopstick (philosophers sim_ex ! 0) = Some 0"
    "right_chopstick (philosophers sim_ex ! 0) = Some 1"
    "0 < length (philosophers sim_ex)" "0 < length (chopsticks sim_ex)"
    "1 < length (chopsticks sim_ex)"
    "0 < mi (philosophers sim_ex ! 0)" "0 < lambda_i (philosophers sim_ex ! 0)"
    "0 \<le> rnd_ex (draws sim_ex)"
    by (simp_all add: sim_ex_def Simulation_init_nth rnd_ex_def)
  have free: "is_free (chopsticks sim_ex ! 0) \<and> is_free (chopsticks sim_ex ! 1)"
    by (simp add: sim_ex_def Simulation_init_nth)
  have req: "requests (philosophers sim_ex ! 0) = []"
    by (simp add: sim_ex_def Simulation_init_nth)
  have d: "expovariate rnd_ex (draws sim_ex) (mi (philosophers sim_ex ! 0)) = Inr 3"
    by (simp add: sim_ex_def Simulation_init_nth rnd_ex_def expovariate_def)
  from C1_request[where s = sim_ex and i = 0 and l = 0 and r = 1 and rnd = rnd_ex and t = 0, OF h]
    free req d
  have "\<exists>s' ev. request rnd_ex sim_ex 0 0 = Inr (s', ev) \<and>
      requests (philosophers s' ! 0) = [0] \<and> type ev = FINISH \<and> time ev = 3 \<and>
      \<not> is_free (chopsticks s' ! 0) \<and> \<not> is_free (chopsticks s' ! 1)"
    by auto
  then show ?thesis using h by blast
qed

text \<open>
  C2. A philosopher handed a finish at time \<open>t\<close> puts both its chopsticks down, so both
  are free afterwards, adds \<open>t - started_at\<close> to \<open>eating_time\<close> and returns one REQUEST
  event for itself at \<open>t + d\<close>, where \<open>d \<ge> 0\<close> is drawn with the request rate;
  \<open>failed_attempts\<close> and the list of requests stay as they are. This holds whether or
  not the chopsticks were held before.
\<close>

theorem C2_finish:
  assumes refs: "left_chopstick (philosophers s ! i) = Some l"
      "right_chopstick (philosophers s ! i) = Some r"
    and bounds: "i < length (philosophers s)" "l < length (chopsticks s)"
      "r < length (chopsticks s)"
    and rate: "0 < lambda_i (philosophers s ! i)"
    and rnd: "0 \<le> rnd (draws s)"
  shows "\<exists>s' ev d. finish rnd s i t = Inr (s', ev) \<and>
     is_free (chopsticks s' ! l) \<and> is_free (chopsticks s' ! r) \<and>
     (\<forall>c. c \<noteq> l \<and> c \<noteq> r \<longrightarrow> chopsticks s' ! c = chopsticks s ! c) \<and>
     eating_time (philosophers s' ! i) =
       eating_time (philosophers s ! i) + (t - started_at (philosophers s ! i)) \<and>
     failed_attempts (philosophers s' ! i) = failed_attempts (philosophers s ! i) \<and>
     requests (philosophers s' ! i) = requests (philosophers s ! i) \<and>
     philosopher ev = i \<and> type ev = REQUEST \<and> time ev = t + d \<and> 0 \<le> d \<and>
     expovariate rnd (draws s) (lambda_i (philosophers s ! i)) = Inr d"
proof -
  have nz: "lambda_i (philosophers s ! i) \<noteq> 0" using rate by simp
  have d: "0 \<le> rnd (draws s) / lambda_i (philosophers s ! i)" using rate rnd by simp
  show ?thesis
    using finish_ok[OF refs nz, of rnd t] bounds nz d
    by (simp add: expovariate_def put_down_def nth_list_update)
qed

text \<open>
  An instance where the chopsticks are held: in the state after the seeding of the first
  example philosopher 0 is eating, chopsticks 0 and 1 are taken, and its FINISH event is
  due at time 3.
\<close>

theorem C2_finish_witness:
  "left_chopstick (philosophers seeded_ex ! 0) = Some 0 \<and>
   right_chopstick (philosophers seeded_ex ! 0) = Some 1 \<and>
   0 < length (philosophers seeded_ex) \<and> 0 < length (chopsticks seeded_ex) \<and>
   1 < length (chopsticks seeded_ex) \<and> 0 < lambda_i (philosophers seeded_ex ! 0) \<and>
   0 \<le> rnd_ex (draws seeded_ex) \<and>
   eating seeded_ex 0 \<and>
   \<not> is_free (chopsticks seeded_ex ! 0) \<and> \<not> is_free (chopsticks seeded_ex ! 1) \<and>
   (\<exists>s' ev. finish rnd_ex seeded_ex 0 3 = Inr (s', ev) \<and>
      is_free (chopsticks s' ! 0) \<and> is_free (chopsticks s' ! 1) \<and>
      chopsticks s' ! 2 = chopsticks seeded_ex ! 2 \<and>
      eating_time (philosophers s' ! 0) = 3 \<and>
      failed_attempts (philosophers s' ! 0) = 0 \<and>
      requests (philosophers s' ! 0) = [0] \<and>
      philosopher ev = 0 \<and> type ev = REQUEST \<and> time ev = 7)"
proof -
  have h: "left_chopstick (philosophers seeded_ex ! 0) = Some 0"
    "right_chopstick (philosophers seeded_ex ! 0) = Some 1"
    "0 < length (philosophers seeded_ex)" "0 < length (chopsticks seeded_ex)"
    "1 < length (chopsticks seeded_ex)" "0 < lambda_i (philosophers seeded_ex ! 0)"
    "0 \<le> rnd_ex (draws seeded_ex)"
    by (simp_all add: seeded_ex_def rnd_ex_def)
  have held: "eating seeded_ex 0"
    "\<not> is_free (chopsticks seeded_ex ! 0)" "\<not> is_free (chopsticks seeded_ex ! 1)"
    by (simp_all add: seeded_ex_def eating_def)
  have vals: "eating_time (philosophers seeded_ex ! 0) = 0"
    "started_at (philosophers seeded_ex ! 0) = 0"
    "failed_attempts (philosophers seeded_ex ! 0) = 0"
    "requests (philosophers seeded_ex ! 0) = [0]"
    by (simp_all add: seeded_ex_def)
  have d: "expovariate rnd_ex (draws seeded_ex) (lambda_i (philosophers seeded_ex ! 0)) = Inr 4"
    by (simp add: seeded_ex_def rnd_ex_def expovariate_def)
  from C2_finish[where s = seeded_ex and i = 0 and l = 0 and r = 1 and rnd = rnd_ex and t = 3,
      OF h]
  obtain s' ev d' where r: "finish rnd_ex seeded_ex 0 3 = Inr (s', ev)"
    "is_free (chopsticks s' ! 0)" "is_free (chopsticks s' ! 1)"
    "\<forall>c. c \<noteq> 0 \<and> c \<noteq> 1 \<longrightarrow> chopsticks s' ! c = chopsticks seeded_ex ! c"
    "eating_time (philosophers s' ! 0) =
       eating_time (philosophers seeded_ex ! 0) + (3 - started_at (philosophers seeded_ex ! 0))"
    "failed_attempts (philosophers s' ! 0) = failed_attempts (philosophers seeded_ex ! 0)"
    "requests (philosophers s' ! 0) = requests (philosophers seeded_ex ! 0)"
    "philosopher ev = 0" "type ev = REQUEST" "time ev = 3 + d'"
    "expovariate rnd_ex (draws seeded_ex) (lambda_i (philosophers seeded_ex ! 0)) = Inr d'"
    by blast
  have d': "d' = 4" using r(11) d by simp
  have c2: "chopsticks s' ! 2 = chopsticks seeded_ex ! 2" using r(4) by simp
  have "\<exists>s' ev. finish rnd_ex seeded_ex 0 3 = Inr (s', ev) \<and>
      is_free (chopsticks s' ! 0) \<and> is_free (chopsticks s' ! 1) \<and>
      chopsticks s' ! 2 = chopsticks seeded_ex ! 2 \<and>
      eating_time (philosophers s' ! 0) = 3 \<and>
      failed_attempts (philosophers s' ! 0) = 0 \<and>
      requests (philosophers s' ! 0) = [0] \<and>
      philosopher ev = 0 \<and> type ev = REQUEST \<and> time ev = 7"
    using r c2 d' vals by simp
  then show ?thesis using h held by blast
qed

text \<open>
  C6. In a simulation constructed over \<open>N\<close> rates, philosopher \<open>i\<close> refers to chopstick
  \<open>i\<close> as its left one and to chopstick \<open>(i + 1) mod N\<close> as its right one, and both exist.
  For \<open>N = 5\<close>, philosopher 3 has the chopsticks 3 and 4 and philosopher 4 has the
  chopsticks 4 and 0.
\<close>

theorem C6_ring:
  "(\<forall>i < length lambdas.
      left_chopstick (philosophers (Simulation_init mi' T' lambdas) ! i) = Some i \<and>
      right_chopstick (philosophers (Simulation_init mi' T' lambdas) ! i)
        = Some ((i + 1) mod length lambdas) \<and>
      i < length (chopsticks (Simulation_init mi' T' lambdas)) \<and>
      (i + 1) mod length lambdas < length (chopsticks (Simulation_init mi' T' lambdas))) \<and>
   (length lambdas = 5 \<longrightarrow>
      left_chopstick (philosophers (Simulation_init mi' T' lambdas) ! 3) = Some 3 \<and>
      right_chopstick (philosophers (Simulation_init mi' T' lambdas) ! 3) = Some 4 \<and>
      left_chopstick (philosophers (Simulation_init mi' T' lambdas) ! 4) = Some 4 \<and>
      right_chopstick (philosophers (Simulation_init mi' T' lambdas) ! 4) = Some 0)"
proof (intro conjI allI impI)
  fix i assume i: "i < length lambdas"
  then have "0 < length lambdas" by (rule order.strict_trans1[OF le0])
  then show "(i + 1) mod length lambdas < length (chopsticks (Simulation_init mi' T' lambdas))"
    by simp
qed (simp_all add: Simulation_init_nth)

theorem C6_ring_witness:
  "length [1, 1, 1, 1, 1 :: real] = 5 \<and>
   left_chopstick (philosophers (Simulation_init 1 500 [1, 1, 1, 1, 1]) ! 3) = Some 3 \<and>
   right_chopstick (philosophers (Simulation_init 1 500 [1, 1, 1, 1, 1]) ! 3) = Some 4 \<and>
   left_chopstick (philosophers (Simulation_init 1 500 [1, 1, 1, 1, 1]) ! 4) = Some 4 \<and>
   right_chopstick (philosophers (Simulation_init 1 500 [1, 1, 1, 1, 1]) ! 4) = Some 0"
  using C6_ring[of "[1, 1, 1, 1, 1]" 1 500] by simp

section \<open>Claims about the event loop\<close>

text \<open>
  C3. In every state of a run, after each of the seeding requests and at the start of
  every iteration of the loop, no chopstick is held by two philosophers, a chopstick is
  taken exactly when a philosopher holds it, and every philosopher holds both of its
  chopsticks (it is eating, and both are taken) or neither of them, never exactly one.
  A philosopher holds its two chopsticks while its pending event is a FINISH event.
\<close>

theorem C3_mutual_exclusion:
  "(\<forall>k s1. k \<le> length lambdas \<and>
       seed rnd [0..<k] (Simulation_init mi' T' lambdas) = Inr s1 \<longrightarrow> exclusion s1) \<and>
   (\<forall>s0 tr t s.
       seed rnd [0..<length lambdas] (Simulation_init mi' T' lambdas) = Inr s0 \<and>
       exec rnd (0, s0) tr (t, s) \<longrightarrow> exclusion s)"
proof (intro conjI allI impI)
  fix k s1
  assume "k \<le> length lambdas \<and> seed rnd [0..<k] (Simulation_init mi' T' lambdas) = Inr s1"
  then have "inv s1" using seed_prefix_inv by blast
  then show "exclusion s1" by (rule inv_exclusion)
next
  fix s0 tr t s
  assume h: "seed rnd [0..<length lambdas] (Simulation_init mi' T' lambdas) = Inr s0 \<and>
             exec rnd (0, s0) tr (t, s)"
  then have "inv s0" using seed_start(1) by blast
  then have "inv s" using exec_inv h by fastforce
  then show "exclusion s" by (rule inv_exclusion)
qed

theorem C3_mutual_exclusion_witness:
  "seed rnd_ex [0..<length [1, 1, 1 :: real]] (Simulation_init 1 1 [1, 1, 1]) = Inr seeded_ex \<and>
   exec rnd_ex (0, seeded_ex) [(e1_ex, seeded_ex)] (0, s1_ex) \<and>
   exclusion seeded_ex \<and> exclusion s1_ex \<and>
   \<not> (\<exists>c i j. holds s1_ex i c \<and> holds s1_ex j c \<and> i \<noteq> j) \<and>
   is_free (chopsticks s1_ex ! 2) = (\<not> (\<exists>i. holds s1_ex i 2)) \<and>
   is_free (chopsticks s1_ex ! 1) = (\<not> (\<exists>i. holds s1_ex i 1)) \<and>
   eating s1_ex 0 \<and> holds s1_ex 0 0 \<and> holds s1_ex 0 1"
proof -
  note c3 = C3_mutual_exclusion[of "[1, 1, 1]" rnd_ex 1 1]
  have a: "exclusion seeded_ex"
    using c3[THEN conjunct1, THEN spec, THEN spec, of "length [1, 1, 1 :: real]" seeded_ex]
      seed_ex by blast
  have b: "exclusion s1_ex" using c3 seed_ex exec1_ex by blast
  have len: "length (chopsticks s1_ex) = 3" "length (philosophers s1_ex) = 3"
    by (simp_all add: s1_ex_def)
  have refs: "left_chopstick (philosophers s1_ex ! 0) = Some 0"
    "right_chopstick (philosophers s1_ex ! 0) = Some 1"
    by (simp_all add: s1_ex_def)
  have eat: "eating s1_ex 0" by (simp add: eating_def s1_ex_def)
  have 1: "\<not> (\<exists>c i j. holds s1_ex i c \<and> holds s1_ex j c \<and> i \<noteq> j)"
    using b unfolding exclusion_def by blast
  have 2: "is_free (chopsticks s1_ex ! 2) = (\<not> (\<exists>i. holds s1_ex i 2))"
    "is_free (chopsticks s1_ex ! 1) = (\<not> (\<exists>i. holds s1_ex i 1))"
    using b len unfolding exclusion_def by simp_all
  have "\<exists>l r. left_chopstick (philosophers s1_ex ! 0) = Some l \<and>
          right_chopstick (philosophers s1_ex ! 0) = Some r \<and> holds s1_ex 0 l \<and> holds s1_ex 0 r"
    using b[unfolded exclusion_def, THEN conjunct2, THEN conjunct2, THEN spec, of 0] len eat
    by auto
  then have 3: "holds s1_ex 0 0 \<and> holds s1_ex 0 1" using refs by simp
  show ?thesis using seed_ex exec1_ex a b 1 2 3 eat by blast
qed

text \<open>
  C5. Every iteration of the loop pops one event and pushes exactly one follow-up event,
  which belongs to the same philosopher. So at the start of every iteration the queue
  holds as many events as there are philosophers. With at least one philosopher,
  positive rates and a random source that yields no negative value, every iteration
  succeeds.
\<close>

theorem C5_queue_population:
  assumes seed: "seed rnd [0..<length lambdas] (Simulation_init mi' T' lambdas) = Inr s0"
    and run: "exec rnd (0, s0) tr (t, s)"
  shows "length (events s) = length lambdas \<and> length (philosophers s) = length lambdas \<and>
    (\<forall>e s'. loop_body rnd s = Inr (e, s') \<longrightarrow>
       e \<in> set (events s) \<and>
       (\<exists>nxt. philosopher nxt = philosopher e \<and>
              mset (events s') = add_mset nxt (mset (events s) - {#e#})) \<and>
       length (events s') = length lambdas) \<and>
    (lambdas \<noteq> [] \<and> 0 < mi' \<and> (\<forall>x \<in> set lambdas. 0 < x) \<and> (\<forall>k. 0 \<le> rnd k) \<longrightarrow>
       (\<exists>e s'. loop_body rnd s = Inr (e, s')))"
proof -
  note start = seed_start[OF seed]
  have inv: "inv s" and len: "length (events s) = length lambdas"
    "length (philosophers s) = length lambdas"
    using exec_inv[OF run] start by simp_all
  have progress: "\<exists>e s'. loop_body rnd s = Inr (e, s')"
    if h: "lambdas \<noteq> [] \<and> 0 < mi' \<and> (\<forall>x \<in> set lambdas. 0 < x) \<and> (\<forall>k. 0 \<le> rnd k)"
  proof -
    have rnd: "\<forall>k. 0 \<le> rnd k" and rates: "0 < mi'" "\<forall>x \<in> set lambdas. 0 < x"
      using h by simp_all
    note tq = seed_start_timed[OF rates rnd seed]
    have "timedP t s" using exec_timed[OF run _ _ _ rnd] start(1) tq by simp
    moreover have "events s \<noteq> []" using len h by auto
    ultimately show ?thesis using loop_body_succeeds[OF inv] by blast
  qed
  show ?thesis
    using len loop_body_facts(1,2,3)[OF inv] progress by auto
qed

theorem C5_queue_population_witness:
  "seed rnd_ex [0..<length [1, 1, 1 :: real]] (Simulation_init 1 1 [1, 1, 1]) = Inr seeded_ex \<and>
   exec rnd_ex (0, seeded_ex) [(e1_ex, seeded_ex)] (0, s1_ex) \<and>
   loop_body rnd_ex s1_ex = Inr (e2_ex, s2_ex) \<and>
   length (events s1_ex) = 3 \<and> length (events s2_ex) = 3 \<and> e2_ex \<in> set (events s1_ex)"
  using C5_queue_population[OF seed_ex exec1_ex] seed_ex exec1_ex step2_ex by simp

text \<open>
  C10. With at least one philosopher the queue is not empty at any pop of the loop, so
  the pop never fails and \<open>run\<close> does not end with an IndexError. With no philosopher
  and a positive horizon the first iteration pops from the empty queue and \<open>run\<close> ends
  with an IndexError.
\<close>

theorem C10_pop:
  "(lambdas \<noteq> [] \<longrightarrow>
      Simulation_run rnd (Simulation_init mi' T' lambdas) \<noteq> Some (Inl IndexError) \<and>
      (\<forall>s0 tr t s.
         seed rnd [0..<length lambdas] (Simulation_init mi' T' lambdas) = Inr s0 \<and>
         exec rnd (0, s0) tr (t, s) \<longrightarrow>
         events s \<noteq> [] \<and> loop_body rnd s \<noteq> Inl IndexError)) \<and>
   (0 < T' \<longrightarrow> Simulation_run rnd (Simulation_init mi' T' []) = Some (Inl IndexError))"
proof (intro conjI impI allI)
  assume ne: "lambdas \<noteq> []"
  have nonempty: "events s \<noteq> []"
    if "seed rnd [0..<length lambdas] (Simulation_init mi' T' lambdas) = Inr s0"
      and "exec rnd (0, s0) tr (t, s)" for s0 tr t s
  proof -
    have "length (events s) = length lambdas"
      using exec_inv[OF that(2)] seed_start[OF that(1)] by simp
    then show ?thesis using ne by auto
  qed
  {
    fix s0 tr t s
    assume h: "seed rnd [0..<length lambdas] (Simulation_init mi' T' lambdas) = Inr s0 \<and>
               exec rnd (0, s0) tr (t, s)"
    then show "events s \<noteq> []" using nonempty by blast
    then show "loop_body rnd s \<noteq> Inl IndexError" by (simp add: loop_body_IndexError)
  }
  show "Simulation_run rnd (Simulation_init mi' T' lambdas) \<noteq> Some (Inl IndexError)"
  proof
    assume err: "Simulation_run rnd (Simulation_init mi' T' lambdas) = Some (Inl IndexError)"
    obtain s0 where s0: "seed rnd [0..<length lambdas] (Simulation_init mi' T' lambdas) = Inr s0"
      and loop: "run_loop rnd 0 s0 = Some (Inl IndexError)"
      using err seed_not_IndexError[of rnd "[0..<length lambdas]" "Simulation_init mi' T' lambdas"]
      by (auto simp: Simulation_run_def split: sum.splits option.splits)
    from run_loop_Some[OF loop]
    have "\<exists>tr t' s'. exec rnd (0, s0) tr (t', s') \<and> loop_body rnd s' = Inl IndexError"
      by (auto split: if_splits)
    then obtain tr t' s' where ex: "exec rnd (0, s0) tr (t', s')"
      and r: "loop_body rnd s' = Inl IndexError"
      by blast
    show False using nonempty[OF s0 ex] r by (simp add: loop_body_IndexError)
  qed
next
  assume T': "0 < T'"
  have "run_loop rnd 0 (Simulation_init mi' T' []) = Some (Inl IndexError)"
    using T' by (subst run_loop.simps) (simp add: loop_body_def)
  then show "Simulation_run rnd (Simulation_init mi' T' []) = Some (Inl IndexError)"
    by (simp add: Simulation_run_def)
qed

theorem C10_pop_witness:
  "[1, 1, 1 :: real] \<noteq> [] \<and> (0 :: real) < 1 \<and>
   seed rnd_ex [0..<length [1, 1, 1 :: real]] (Simulation_init 1 1 [1, 1, 1]) = Inr seeded_ex \<and>
   exec rnd_ex (0, seeded_ex) [(e1_ex, seeded_ex)] (0, s1_ex) \<and>
   events s1_ex \<noteq> [] \<and> loop_body rnd_ex s1_ex \<noteq> Inl IndexError \<and>
   Simulation_run rnd_ex (Simulation_init 1 1 [1, 1, 1]) \<noteq> Some (Inl IndexError) \<and>
   Simulation_run rnd_ex (Simulation_init 1 1 []) = Some (Inl IndexError)"
  using C10_pop[of "[1, 1, 1]" rnd_ex 1 1] C10_pop[of "[]" rnd_ex 1 1] seed_ex exec1_ex
  by simp

text \<open>
  C4. The loop ends exactly when the clock, the time of the event processed last, has
  reached the horizon: \<open>run\<close> returns if and only if some finite run of iterations leads
  to a clock that is not below \<open>T\<close>. Every iteration of such a run processes its popped
  event completely, every event but the last has a time below \<open>T\<close>, the clock at the end
  is the time of the last event, and the result is the state after that last event with
  the queue emptied; the events left in the queue are not processed.
\<close>

theorem C4_loop_exit:
  "(run_loop rnd t0 s0 = Some (Inr s_end) \<longleftrightarrow>
      (\<exists>tr t'. exec rnd (t0, s0) tr (t', s_end) \<and> T s_end \<le> t')) \<and>
   (Simulation_run rnd sim = Some (Inr s_fin) \<longleftrightarrow>
      (\<exists>s0 tr t' s'. seed rnd [0..<length (philosophers sim)] sim = Inr s0 \<and>
         exec rnd (0, s0) tr (t', s') \<and> T s' \<le> t' \<and> s_fin = s'\<lparr>events := []\<rparr>)) \<and>
   (exec rnd (t0, s0) tr (t', s') \<longrightarrow>
      (\<forall>k < length tr.
          loop_body rnd (snd (tr ! k))
            = Inr (fst (tr ! k), if Suc k < length tr then snd (tr ! Suc k) else s') \<and>
          (Suc k < length tr \<longrightarrow> time (fst (tr ! k)) < T s0)) \<and>
      T s' = T s0 \<and>
      (tr = [] \<longrightarrow> t' = t0 \<and> s' = s0) \<and>
      (tr \<noteq> [] \<longrightarrow> t' = time (fst (last tr)) \<and> t0 < T s0 \<and> snd (hd tr) = s0))"
  using run_loop_returns_iff[of rnd t0 s0 s_end] Simulation_run_returns_iff[of rnd sim s_fin]
    exec_trace[of rnd t0 s0 tr t' s'] exec_T[of rnd "(t0, s0)" tr "(t', s')"]
  by (simp only: fst_conv snd_conv) blast

theorem C4_loop_exit_witness:
  "seed rnd_ex [0..<length (philosophers (Simulation_init 1 1 [1, 1, 1]))]
     (Simulation_init 1 1 [1, 1, 1]) = Inr seeded_ex \<and>
   exec rnd_ex (0, seeded_ex) trace_ex (3, s2_ex) \<and>
   time e1_ex < T seeded_ex \<and> T s2_ex \<le> time e2_ex \<and>
   Simulation_run rnd_ex (Simulation_init 1 1 [1, 1, 1]) = Some (Inr (s2_ex\<lparr>events := []\<rparr>))"
proof -
  have seed: "seed rnd_ex [0..<length (philosophers (Simulation_init 1 1 [1, 1, 1]))]
     (Simulation_init 1 1 [1, 1, 1]) = Inr seeded_ex"
    using seed_ex by simp
  have T: "T s2_ex \<le> 3" "time e1_ex < T seeded_ex" "T s2_ex \<le> time e2_ex"
    by (simp_all add: s2_ex_def e1_ex_def e2_ex_def seeded_ex_def)
  have "Simulation_run rnd_ex (Simulation_init 1 1 [1, 1, 1]) = Some (Inr (s2_ex\<lparr>events := []\<rparr>))"
    using C4_loop_exit[of rnd_ex _ _ _ "Simulation_init 1 1 [1, 1, 1]" "s2_ex\<lparr>events := []\<rparr>"]
      seed exec2_ex T(1)
    by blast
  then show ?thesis using seed exec2_ex T by blast
qed

section \<open>Claims about time\<close>

text \<open>
  C7, as amended. With positive rates and a random source that yields no negative value,
  the popped events have non-decreasing times, every philosopher's list of requests is
  non-decreasing, and its length is one, for the request made by the seeding, plus the
  number of REQUEST events popped for that philosopher. The list need not be strictly
  increasing: a delay can be 0.
\<close>

theorem C7_times:
  assumes rnd: "\<forall>k. 0 \<le> rnd k" and rates: "0 < mi'" "\<forall>x \<in> set lambdas. 0 < x"
    and seed: "seed rnd [0..<length lambdas] (Simulation_init mi' T' lambdas) = Inr s0"
    and run: "exec rnd (0, s0) tr (t, s)"
  shows "sorted (map (\<lambda>x. time (fst x)) tr) \<and>
         (\<forall>i < length lambdas.
            sorted (requests (philosophers s ! i)) \<and>
            length (requests (philosophers s ! i)) = 1 + request_count i tr)"
proof -
  note start = seed_start[OF seed]
  note tq = seed_start_timed[OF rates rnd seed]
  have tm: "timedP t s" and srt: "sorted (map (\<lambda>x. time (fst x)) tr)"
    using exec_timed[OF run _ _ _ rnd] start(1) tq by simp_all
  have len: "length (philosophers s) = length lambdas"
    using exec_inv[OF run] start by simp
  have "sorted (requests (philosophers s ! i)) \<and>
        length (requests (philosophers s ! i)) = 1 + request_count i tr"
    if i: "i < length lambdas" for i
  proof -
    have "philosophers s ! i \<in> set (philosophers s)" using i len by simp
    then have "sorted (requests (philosophers s ! i))" using tm unfolding timedP_def by blast
    moreover have "length (requests (philosophers s ! i)) = 1 + request_count i tr"
      using exec_requests[OF run, of i] start(1,2) i seed_start_philosophers(1)[OF seed i]
      by simp
    ultimately show ?thesis by simp
  qed
  then show ?thesis using srt by simp
qed

theorem C7_times_witness:
  "(\<forall>k. 0 \<le> rnd_ex2 k) \<and> (0 :: real) < 1 \<and>
   seed rnd_ex2 [0..<length [1, 1, 1 :: real]] (Simulation_init 1 3 [1, 1, 1]) = Inr seeded_ex2 \<and>
   exec rnd_ex2 (0, seeded_ex2) trace_ex2 (3, s3_ex2) \<and>
   sorted (map (\<lambda>x. time (fst x)) trace_ex2) \<and>
   sorted (requests (philosophers s3_ex2 ! 0)) \<and>
   length (requests (philosophers s3_ex2 ! 0)) = 1 + request_count 0 trace_ex2 \<and>
   request_count 0 trace_ex2 = 1"
proof -
  have rnd: "\<forall>k. 0 \<le> rnd_ex2 k" using rnd_ex2_nonneg by simp
  have rates: "(0 :: real) < 1" "\<forall>x \<in> set [1, 1, 1 :: real]. 0 < x" by simp_all
  have cnt: "request_count 0 trace_ex2 = 1"
    by (simp add: request_count_def trace_ex2_def e1_ex2_def e2_ex2_def e3_ex2_def)
  show ?thesis
    using C7_times[OF rnd rates seed_ex2 exec_ex2] rnd seed_ex2 exec_ex2 cnt by simp
qed

text \<open>
  The run of the first example returns; philosopher 1 has requested at time 0 twice, so
  its list of requests is not strictly increasing.
\<close>

theorem C7_not_strict:
  "Simulation_run rnd_ex (Simulation_init 1 1 [1, 1, 1]) = Some (Inr final_ex) \<and>
   requests (philosophers final_ex ! 1) = [0, 0] \<and>
   \<not> sorted_wrt (<) (requests (philosophers final_ex ! 1))"
  using run_ex by (simp add: final_ex_def s2_ex_def)

text \<open>
  C9, as amended. With positive rates and a random source that yields no negative value,
  the sum of the eating times is at most the number of FINISH events processed so far
  times the clock, the time of the event processed last. The clock is below \<open>T\<close> until
  the last iteration and may lie beyond \<open>T\<close> after it, because the event that ends the
  loop is processed as well. The busy intervals of one philosopher do not overlap: each
  begins no earlier than the one before it has ended (they can share that end point,
  when a delay is 0).
\<close>

theorem C9_busy:
  assumes rnd: "\<forall>k. 0 \<le> rnd k" and rates: "0 < mi'" "\<forall>x \<in> set lambdas. 0 < x"
    and seed: "seed rnd [0..<length lambdas] (Simulation_init mi' T' lambdas) = Inr s0"
    and run: "exec rnd (0, s0) tr (t, s)"
  shows "busy_total s \<le> real (finish_count tr) * t \<and>
         busy_total s \<le> real (finish_count tr) * max T' t \<and>
         (\<forall>a b. a < b \<and> b < length tr \<and> type (fst (tr ! a)) = FINISH \<and>
                type (fst (tr ! b)) = FINISH \<and>
                philosopher (fst (tr ! a)) = philosopher (fst (tr ! b)) \<longrightarrow>
            fst (busy_interval (tr ! a)) \<le> snd (busy_interval (tr ! a)) \<and>
            snd (busy_interval (tr ! a)) \<le> fst (busy_interval (tr ! b)) \<and>
            fst (busy_interval (tr ! b)) \<le> snd (busy_interval (tr ! b)))"
proof -
  note start = seed_start[OF seed]
  note tq = seed_start_timed[OF rates rnd seed]
  have 1: "busy_total s \<le> real (finish_count tr) * t"
    using exec_busy[OF run _ _ _ rnd] start(1) tq seed_start_philosophers(2)[OF seed]
    by simp
  have "real (finish_count tr) * t \<le> real (finish_count tr) * max T' t"
    by (intro mult_left_mono) simp_all
  then have 2: "busy_total s \<le> real (finish_count tr) * max T' t" using 1 by simp
  have iv: "(\<forall>x \<in> set tr. type (fst x) = FINISH \<longrightarrow>
            fst (busy_interval x) \<le> snd (busy_interval x) \<and>
            (eating s (philosopher (fst x)) \<longrightarrow>
               time (fst x) \<le> started_at (philosophers s ! philosopher (fst x)))) \<and>
         (\<forall>a b. a < b \<and> b < length tr \<and> type (fst (tr ! a)) = FINISH \<and>
                type (fst (tr ! b)) = FINISH \<and>
                philosopher (fst (tr ! a)) = philosopher (fst (tr ! b)) \<longrightarrow>
                snd (busy_interval (tr ! a)) \<le> fst (busy_interval (tr ! b)))"
    using exec_intervals[OF run _ _ _ rnd] start(1) tq by simp
  have 3: "fst (busy_interval (tr ! a)) \<le> snd (busy_interval (tr ! a)) \<and>
            snd (busy_interval (tr ! a)) \<le> fst (busy_interval (tr ! b)) \<and>
            fst (busy_interval (tr ! b)) \<le> snd (busy_interval (tr ! b))"
    if ab: "a < b \<and> b < length tr \<and> type (fst (tr ! a)) = FINISH \<and>
                type (fst (tr ! b)) = FINISH \<and>
                philosopher (fst (tr ! a)) = philosopher (fst (tr ! b))" for a b
  proof -
    have "tr ! a \<in> set tr" "tr ! b \<in> set tr" using ab by simp_all
    then show ?thesis using iv ab by blast
  qed
  show ?thesis using 1 2 3 by blast
qed

theorem C9_busy_witness:
  "(\<forall>k. 0 \<le> rnd_ex2 k) \<and> (0 :: real) < 1 \<and>
   seed rnd_ex2 [0..<length [1, 1, 1 :: real]] (Simulation_init 1 3 [1, 1, 1]) = Inr seeded_ex2 \<and>
   exec rnd_ex2 (0, seeded_ex2) trace_ex2 (3, s3_ex2) \<and>
   (0 :: nat) < 2 \<and> 2 < length trace_ex2 \<and>
   type (fst (trace_ex2 ! 0)) = FINISH \<and> type (fst (trace_ex2 ! 2)) = FINISH \<and>
   philosopher (fst (trace_ex2 ! 0)) = philosopher (fst (trace_ex2 ! 2)) \<and>
   busy_total s3_ex2 \<le> real (finish_count trace_ex2) * 3 \<and>
   snd (busy_interval (trace_ex2 ! 0)) \<le> fst (busy_interval (trace_ex2 ! 2)) \<and>
   busy_interval (trace_ex2 ! 0) = (0, 1) \<and> busy_interval (trace_ex2 ! 2) = (2, 3)"
proof -
  have rnd: "\<forall>k. 0 \<le> rnd_ex2 k" using rnd_ex2_nonneg by simp
  have rates: "(0 :: real) < 1" "\<forall>x \<in> set [1, 1, 1 :: real]. 0 < x" by simp_all
  have h: "(0 :: nat) < 2 \<and> 2 < length trace_ex2 \<and>
     type (fst (trace_ex2 ! 0)) = FINISH \<and> type (fst (trace_ex2 ! 2)) = FINISH \<and>
     philosopher (fst (trace_ex2 ! 0)) = philosopher (fst (trace_ex2 ! 2))"
    by (simp add: trace_ex2_def e1_ex2_def e3_ex2_def)
  have iv: "busy_interval (trace_ex2 ! 0) = (0, 1)" "busy_interval (trace_ex2 ! 2) = (2, 3)"
    by (simp_all add: busy_interval_def trace_ex2_def e1_ex2_def e3_ex2_def
        seeded_ex2_def s2_ex2_def)
  note c9 = C9_busy[OF rnd rates seed_ex2 exec_ex2]
  have 1: "busy_total s3_ex2 \<le> real (finish_count trace_ex2) * 3" using c9 by simp
  have 2: "snd (busy_interval (trace_ex2 ! 0)) \<le> fst (busy_interval (trace_ex2 ! 2))"
    using c9[THEN conjunct2, THEN conjunct2, THEN spec, THEN spec, of 0 2] h by blast
  show ?thesis using rnd seed_ex2 exec_ex2 h iv 1 2 by simp
qed

text \<open>
  In the run of the first example one FINISH event is processed, at time 3 with horizon
  1, and the sum of the eating times is 3: more than one times the horizon.
\<close>

theorem C9_exceeds_horizon:
  "Simulation_run rnd_ex (Simulation_init 1 1 [1, 1, 1]) = Some (Inr final_ex) \<and>
   exec rnd_ex (0, seeded_ex) trace_ex (3, s2_ex) \<and>
   busy_total final_ex = 3 \<and> finish_count trace_ex = 1 \<and> T final_ex = 1 \<and>
   \<not> busy_total final_ex \<le> real (finish_count trace_ex) * T final_ex"
  using run_ex exec2_ex
  by (simp add: final_ex_def s2_ex_def busy_total_def finish_count_def trace_ex_def
      e1_ex_def e2_ex_def)

section \<open>The argument checks\<close>

text \<open>
  What the checks accept: the number of philosophers, which is the number of the rates
  when a non-empty list of rates is given, is odd and at least 3, the horizon is
  positive, a given rate list holds positive rates only, and a given service rate is
  not negative.
\<close>

lemma validate_accepts_iff:
  "(\<exists>a. validate args = Inr a) \<longleftrightarrow>
     (3 \<le> (if truthy_list (args_lambdas args)
             then int (length (the (args_lambdas args))) else args_n args) \<and>
      odd (if truthy_list (args_lambdas args)
           then int (length (the (args_lambdas args))) else args_n args) \<and>
      0 < args_T args \<and>
      (case args_mi args of None \<Rightarrow> True | Some m \<Rightarrow> 0 \<le> m) \<and>
      (case args_lambdas args of None \<Rightarrow> True | Some ls \<Rightarrow> list_all (\<lambda>x. 0 < x) ls))"
proof -
  define n' where "n' = (if truthy_list (args_lambdas args)
             then int (length (the (args_lambdas args))) else args_n args)"
  have n: "\<not> (n' < 2 \<or> n' mod 2 \<noteq> 1) \<longleftrightarrow> 3 \<le> n' \<and> odd n'"
    by presburger
  have t: "\<not> args_T args < 1 \<longleftrightarrow> 0 < args_T args" by linarith
  have m: "\<not> (truthy_float (args_mi args) \<and> the (args_mi args) \<le> 0) \<longleftrightarrow>
           (case args_mi args of None \<Rightarrow> True | Some m \<Rightarrow> 0 \<le> m)"
    by (cases "args_mi args") (auto simp: truthy_float_def)
  have l: "\<not> (truthy_list (args_lambdas args) \<and>
               list_ex (\<lambda>lambda_i. lambda_i \<le> 0) (the (args_lambdas args))) \<longleftrightarrow>
           (case args_lambdas args of None \<Rightarrow> True | Some ls \<Rightarrow> list_all (\<lambda>x. 0 < x) ls)"
    by (cases "args_lambdas args")
       (auto simp: truthy_list_def list_ex_iff list_all_iff not_le)
  have v: "(\<exists>a. validate args = Inr a) \<longleftrightarrow>
          \<not> (n' < 2 \<or> n' mod 2 \<noteq> 1) \<and> \<not> args_T args < 1 \<and>
          \<not> (truthy_float (args_mi args) \<and> the (args_mi args) \<le> 0) \<and>
          \<not> (truthy_list (args_lambdas args) \<and>
               list_ex (\<lambda>lambda_i. lambda_i \<le> 0) (the (args_lambdas args)))"
    unfolding validate_def Let_def n'_def by (simp split: if_splits)
  have "(\<exists>a. validate args = Inr a) \<longleftrightarrow>
     (3 \<le> n' \<and> odd n' \<and> 0 < args_T args \<and>
      (case args_mi args of None \<Rightarrow> True | Some m \<Rightarrow> 0 \<le> m) \<and>
      (case args_lambdas args of None \<Rightarrow> True | Some ls \<Rightarrow> list_all (\<lambda>x. 0 < x) ls))"
    unfolding v n t m l by (simp only: conj_assoc)
  then show ?thesis unfolding n'_def .
qed

text \<open>
  C8. The script is meant to reject a service rate that is not positive. With \<open>-mi 0\<close>
  the check does not fire, because it tests the truth value of the rate first and 0.0
  is false: the arguments are accepted, the simulation is built, and the first
  philosopher to pick its chopsticks up draws a delay with rate 0 and the run ends with
  a ZeroDivisionError.
\<close>

theorem C8_zero_mi_accepted:
  "validate \<lparr>args_n = 5, args_T = 500, args_mi = Some 0, args_lambdas = None\<rparr>
     = Inr \<lparr>args_n = 5, args_T = 500, args_mi = Some 0, args_lambdas = None\<rparr> \<and>
   main rnd default_mi default_lambda
     \<lparr>args_n = 5, args_T = 500, args_mi = Some 0, args_lambdas = None\<rparr>
     = Some (Inl ZeroDivisionError)"
proof -
  have v: "validate \<lparr>args_n = 5, args_T = 500, args_mi = Some 0, args_lambdas = None\<rparr>
     = Inr \<lparr>args_n = 5, args_T = 500, args_mi = Some 0, args_lambdas = None\<rparr>"
    by (simp add: validate_def truthy_list_def truthy_float_def)
  have "map default_lambda [0..<nat 5] \<noteq> []" by simp
  then have "Simulation_run rnd (Simulation_init 0 500 (map default_lambda [0..<nat 5]))
               = Some (Inl ZeroDivisionError)"
    by (rule zero_mi_run)
  then show ?thesis using v by (simp add: main_def run_def)
qed


end
